theory Spec2Isabelle
  imports
    Complex_Main
    "HOL-Library.Word"
    "HOL-Library.Monad_Syntax"
    "HOL-Library.Product_Lexorder"
    "HOL-Library.Multiset"
begin

section \<open>Occupancy grid and points\<close>

text \<open>
  A point is a pair \<open>(x, y)\<close> of Python integers. The obstacle map is a two-dimensional
  numpy array of unsigned bytes, indexed \<open>obstacle_map[y, x]\<close>; \<open>PathFinder.__init__\<close>
  reads \<open>height\<close> and \<open>width\<close> from its shape. The value 255 marks an obstacle and 0 free
  space.

  Throughout, a result of type \<open>'a option\<close> is \<open>None\<close> when the Python call does not
  return a value: an exception is raised or a loop never ends.
\<close>

type_synonym point = "int \<times> int"

record grid =
  height :: nat
  width :: nat
  cells :: "nat \<Rightarrow> nat \<Rightarrow> 8 word"

text \<open>
  \<open>obstacle_map[y, x]\<close> as numpy evaluates it: an index below zero counts from the end,
  an index outside \<open>-n .. n - 1\<close> raises IndexError.
\<close>

definition np_get :: "grid \<Rightarrow> int \<Rightarrow> int \<Rightarrow> 8 word option" where
  "np_get g y x =
     (let h = int (height g); w = int (width g)
      in if - h \<le> y \<and> y < h \<and> - w \<le> x \<and> x < w
         then Some (cells g (nat (y mod h)) (nat (x mod w)))
         else None)"

text \<open>
  The test \<open>x < 0 or x >= self.width or y < 0 or y >= self.height or
  self.obstacle_map[y, x] == 255\<close> of the line-of-sight walk and of both elbow routes;
  \<open>or\<close> is evaluated left to right and stops at the first true operand.
\<close>

definition blocked :: "grid \<Rightarrow> int \<Rightarrow> int \<Rightarrow> bool option" where
  "blocked g x y =
     (if x < 0 \<or> x \<ge> int (width g) \<or> y < 0 \<or> y \<ge> int (height g) then Some True
      else map_option (\<lambda>v. v = 255) (np_get g y x))"

text \<open>A cell inside the grid that is not marked as an obstacle.\<close>

definition passable :: "grid \<Rightarrow> point \<Rightarrow> bool" where
  "passable g p =
     (case p of (x, y) \<Rightarrow>
        0 \<le> x \<and> x < int (width g) \<and> 0 \<le> y \<and> y < int (height g) \<and>
        cells g (nat y) (nat x) \<noteq> 255)"

text \<open>A cell inside the grid whose value is 0, the test of \<open>get_neighbors\<close>.\<close>

definition free_cell :: "grid \<Rightarrow> point \<Rightarrow> bool" where
  "free_cell g p =
     (case p of (x, y) \<Rightarrow>
        0 \<le> x \<and> x < int (width g) \<and> 0 \<le> y \<and> y < int (height g) \<and>
        cells g (nat y) (nat x) = 0)"

text \<open>The grids the obstacle map builder produces hold the two values 0 and 255 only.\<close>

definition binary_grid :: "grid \<Rightarrow> bool" where
  "binary_grid g = (\<forall>y x. cells g y x = 0 \<or> cells g y x = 255)"

section \<open>Line of sight: \<open>_can_connect_directly\<close>\<close>

text \<open>
  One pass through the body of the \<open>while True\<close> loop after the two tests: the state is
  \<open>(err, x, y)\<close>.
\<close>

definition line_step :: "int \<Rightarrow> int \<Rightarrow> int \<Rightarrow> int \<Rightarrow> int \<times> int \<times> int \<Rightarrow> int \<times> int \<times> int" where
  "line_step dx dy x_step y_step s =
     (case s of (err, x, y) \<Rightarrow>
        let e2 = 2 * err;
            (err, x) = (if e2 > - dy then (err - dy, x + x_step) else (err, x));
            (err, y) = (if e2 < dx then (err + dx, y + y_step) else (err, y))
        in (err, x, y))"

partial_function (option) los_loop ::
  "grid \<Rightarrow> int \<Rightarrow> int \<Rightarrow> int \<Rightarrow> int \<Rightarrow> int \<Rightarrow> int \<Rightarrow> int \<times> int \<times> int \<Rightarrow> bool option" where
  "los_loop g x1 y1 dx dy x_step y_step s =
     (case s of (err, x, y) \<Rightarrow>
        do { b \<leftarrow> blocked g x y;
             if b then Some False
             else if x = x1 \<and> y = y1 then Some True
             else los_loop g x1 y1 dx dy x_step y_step (line_step dx dy x_step y_step s) })"

declare los_loop.simps [code]

definition can_connect_directly :: "grid \<Rightarrow> point \<Rightarrow> point \<Rightarrow> bool option" where
  "can_connect_directly g start end =
     (case start of (x0, y0) \<Rightarrow> case end of (x1, y1) \<Rightarrow>
        let dx = \<bar>x1 - x0\<bar>; dy = \<bar>y1 - y0\<bar>;
            x_step = (if x0 < x1 then 1 else - 1);
            y_step = (if y0 < y1 then 1 else - 1);
            err = dx - dy
        in los_loop g x1 y1 dx dy x_step y_step (err, x0, y0))"

text \<open>
  The cells the walk samples, whatever the grid: \<open>line_cell a b n\<close> is the cell reached
  after \<open>n\<close> passes through the loop body, starting at \<open>a\<close>.
\<close>

definition line_state :: "point \<Rightarrow> point \<Rightarrow> nat \<Rightarrow> int \<times> int \<times> int" where
  "line_state start end n =
     (case start of (x0, y0) \<Rightarrow> case end of (x1, y1) \<Rightarrow>
        let dx = \<bar>x1 - x0\<bar>; dy = \<bar>y1 - y0\<bar>;
            x_step = (if x0 < x1 then 1 else - 1);
            y_step = (if y0 < y1 then 1 else - 1)
        in (line_step dx dy x_step y_step ^^ n) (dx - dy, x0, y0))"

definition line_cell :: "point \<Rightarrow> point \<Rightarrow> nat \<Rightarrow> point" where
  "line_cell start end n = snd (line_state start end n)"

section \<open>Path simplification: \<open>optimize_path\<close>\<close>

text \<open>
  Python list indexing \<open>xs[i]\<close>: a negative index counts from the end, an index out of
  range raises IndexError.
\<close>

definition py_get :: "'a list \<Rightarrow> int \<Rightarrow> 'a option" where
  "py_get xs i =
     (if 0 \<le> i \<and> i < int (length xs) then Some (xs ! nat i)
      else if - int (length xs) \<le> i \<and> i < 0 then Some (xs ! nat (int (length xs) + i))
      else None)"

text \<open>
  The inner loop \<open>while j < len(path)\<close>: it stops at the first \<open>j\<close> that \<open>path[i]\<close>
  cannot be connected to, and returns that \<open>j\<close>.
\<close>

function scan_ahead :: "grid \<Rightarrow> point list \<Rightarrow> int \<Rightarrow> int \<Rightarrow> int option" where
  "scan_ahead g path i j =
     (if j < int (length path)
      then do { a \<leftarrow> py_get path i;
                b \<leftarrow> py_get path j;
                ok \<leftarrow> can_connect_directly g a b;
                if ok then scan_ahead g path i (j + 1) else Some j }
      else Some j)"
  by pat_completeness auto
termination
  by (relation "measure (\<lambda>(g, path, i, j). nat (int (length path) - j))") auto

text \<open>The outer loop \<open>while i < len(path) - 1\<close>, on the state \<open>(i, optimized)\<close>.\<close>

function optimize_loop :: "grid \<Rightarrow> point list \<Rightarrow> int \<Rightarrow> point list \<Rightarrow> point list option" where
  "optimize_loop g path i optimized =
     (if i < int (length path) - 1
      then do { j \<leftarrow> scan_ahead g path i (i + 1);
                if j - 1 > i
                then do { p \<leftarrow> py_get path (j - 1);
                          optimize_loop g path (j - 1) (optimized @ [p]) }
                else do { p \<leftarrow> py_get path (i + 1);
                          optimize_loop g path (i + 1) (optimized @ [p]) } }
      else Some optimized)"
  by pat_completeness auto
termination
  by (relation "measure (\<lambda>(g, path, i, optimized). nat (int (length path) - i))") auto

definition optimize_path :: "grid \<Rightarrow> point list \<Rightarrow> point list option" where
  "optimize_path g path =
     (if length path < 3 then Some path
      else do { p0 \<leftarrow> py_get path 0;
                optimized \<leftarrow> optimize_loop g path 0 [p0];
                l \<leftarrow> py_get optimized (- 1);
                e \<leftarrow> py_get path (- 1);
                if l \<noteq> e then Some (optimized @ [e]) else Some optimized })"

declare scan_ahead.simps [simp del] optimize_loop.simps [simp del]

section \<open>General search: \<open>a_star\<close>\<close>

text \<open>The nested function \<open>heuristic\<close>: the Manhattan distance of two points.\<close>

definition heuristic :: "point \<Rightarrow> point \<Rightarrow> int" where
  "heuristic a b = \<bar>fst a - fst b\<bar> + \<bar>snd a - snd b\<bar>"

text \<open>The list \<open>directions\<close> of \<open>get_neighbors\<close>, in the order of the source.\<close>

definition directions :: "point list" where
  "directions = [(- 1, - 1), (- 1, 0), (- 1, 1), (0, - 1), (0, 1), (1, - 1), (1, 0), (1, 1)]"

text \<open>
  The test \<open>0 <= nx < self.width and 0 <= ny < self.height and
  self.obstacle_map[ny, nx] == 0\<close>; the array is read only when the bounds hold.
\<close>

definition free_at :: "grid \<Rightarrow> int \<Rightarrow> int \<Rightarrow> bool option" where
  "free_at g nx ny =
     (if 0 \<le> nx \<and> nx < int (width g) \<and> 0 \<le> ny \<and> ny < int (height g)
      then map_option (\<lambda>v. v = 0) (np_get g ny nx)
      else Some False)"

fun neighbors_loop :: "grid \<Rightarrow> int \<Rightarrow> int \<Rightarrow> point list \<Rightarrow> point list \<Rightarrow> point list option" where
  "neighbors_loop g x y [] neighbors = Some neighbors"
| "neighbors_loop g x y ((dx, dy) # ds) neighbors =
     do { ok \<leftarrow> free_at g (x + dx) (y + dy);
          neighbors_loop g x y ds
            (if ok then neighbors @ [(x + dx, y + dy)] else neighbors) }"

definition get_neighbors :: "grid \<Rightarrow> point \<Rightarrow> point list option" where
  "get_neighbors g pos = (case pos of (x, y) \<Rightarrow> neighbors_loop g x y directions [])"

text \<open>
  The cost of the move from \<open>current\<close> to \<open>neighbor\<close>:
  \<open>move_cost = 1.4 if dx + dy == 2 else 1.0\<close>. Python's floats are modelled as real
  numbers.
\<close>

definition move_cost :: "point \<Rightarrow> point \<Rightarrow> real" where
  "move_cost current neighbor =
     (let dx = \<bar>fst neighbor - fst current\<bar>; dy = \<bar>snd neighbor - snd current\<bar>
      in if dx + dy = 2 then 1.4 else 1.0)"

text \<open>
  The frontier is a \<open>heapq\<close> heap of tuples \<open>(f_score, (x, y))\<close>. The heap is modelled by
  the contract of the standard library: \<open>heappush\<close> adds an item, \<open>heappop\<close> removes and
  returns the smallest item, and raises IndexError on an empty heap. Python compares
  tuples lexicographically, which is the order of pairs here.
\<close>

type_synonym entry = "real \<times> point"

definition heappush :: "entry list \<Rightarrow> entry \<Rightarrow> entry list" where
  "heappush heap item = heap @ [item]"

definition heappop :: "entry list \<Rightarrow> (entry \<times> entry list) option" where
  "heappop heap =
     (if heap = [] then None
      else let item = Min (set heap) in Some (item, remove1 item heap))"

record astar_state =
  open_set :: "entry list"
  came_from :: "point \<rightharpoonup> point"
  g_score :: "point \<rightharpoonup> real"
  f_score :: "point \<rightharpoonup> real"

text \<open>
  The body of \<open>for neighbor in get_neighbors(current)\<close>. Reading \<open>g_score[current]\<close>
  raises KeyError when the key is missing.
\<close>

definition relax :: "point \<Rightarrow> point \<Rightarrow> astar_state \<Rightarrow> point \<Rightarrow> astar_state option" where
  "relax goal current st neighbor =
     do { gc \<leftarrow> g_score st current;
          let tentative_g_score = gc + move_cost current neighbor in
          if (case g_score st neighbor of None \<Rightarrow> True | Some gn \<Rightarrow> tentative_g_score < gn)
          then let f = tentative_g_score + real_of_int (heuristic neighbor goal)
               in Some (st\<lparr>came_from := (came_from st)(neighbor \<mapsto> current),
                            g_score := (g_score st)(neighbor \<mapsto> tentative_g_score),
                            f_score := (f_score st)(neighbor \<mapsto> f),
                            open_set := heappush (open_set st) (f, neighbor)\<rparr>)
          else Some st }"

fun relax_all :: "point \<Rightarrow> point \<Rightarrow> astar_state \<Rightarrow> point list \<Rightarrow> astar_state option" where
  "relax_all goal current st [] = Some st"
| "relax_all goal current st (neighbor # ns) =
     do { st' \<leftarrow> relax goal current st neighbor; relax_all goal current st' ns }"

text \<open>The loop \<open>while current in came_from\<close> that collects the path backwards.\<close>

partial_function (option) reconstruct ::
  "(point \<rightharpoonup> point) \<Rightarrow> point \<Rightarrow> point list \<Rightarrow> point list option" where
  "reconstruct cf current path =
     (case cf current of
        None \<Rightarrow> Some path
      | Some previous \<Rightarrow> reconstruct cf previous (path @ [current]))"

declare reconstruct.simps [code]

text \<open>The loop \<open>while open_set\<close>; \<open>return []\<close> follows it.\<close>

partial_function (option) a_star_loop ::
  "grid \<Rightarrow> point \<Rightarrow> point \<Rightarrow> astar_state \<Rightarrow> point list option" where
  "a_star_loop g start goal st =
     (if open_set st = [] then Some []
      else do { popped \<leftarrow> heappop (open_set st);
                let current = snd (fst popped); st1 = st\<lparr>open_set := snd popped\<rparr> in
                if current = goal
                then do { path \<leftarrow> reconstruct (came_from st1) current [];
                          Some (rev (path @ [start])) }
                else do { ns \<leftarrow> get_neighbors g current;
                          st2 \<leftarrow> relax_all goal current st1 ns;
                          a_star_loop g start goal st2 } })"

declare a_star_loop.simps [code]

definition a_star_init :: "point \<Rightarrow> point \<Rightarrow> astar_state" where
  "a_star_init start goal =
     \<lparr>open_set = heappush [] (0, start), came_from = Map.empty,
      g_score = [start \<mapsto> 0], f_score = [start \<mapsto> real_of_int (heuristic start goal)]\<rparr>"

definition a_star :: "grid \<Rightarrow> point \<Rightarrow> point \<Rightarrow> point list option" where
  "a_star g start goal = a_star_loop g start goal (a_star_init start goal)"

section \<open>Elbow routes: \<open>manhattan_routing\<close>\<close>

text \<open>Python's \<open>range(start, stop, step)\<close> as a list; a step of 0 raises ValueError.\<close>

definition py_range :: "int \<Rightarrow> int \<Rightarrow> int \<Rightarrow> int list option" where
  "py_range start stop step =
     (if step > 0
      then Some (map (\<lambda>k. start + step * int k) [0 ..< nat ((stop - start + step - 1) div step)])
      else if step < 0
      then Some (map (\<lambda>k. start + step * int k) [0 ..< nat ((start - stop - step - 1) div (- step))])
      else None)"

text \<open>
  A route function returns a list of points, or Python's \<open>None\<close> when the route is
  blocked: the inner \<open>option\<close> below. The outer one is \<open>None\<close> when an exception is raised.

  The two kinds of \<open>for\<close> loop of the route functions: along a row \<open>y\<close> over the given
  \<open>x\<close> values, and along a column \<open>x\<close> over the given \<open>y\<close> values. Each cell is tested
  before it is appended, and the first blocked cell ends the whole route function with
  \<open>return None\<close>.
\<close>

fun horizontal_leg :: "grid \<Rightarrow> int \<Rightarrow> int list \<Rightarrow> point list \<Rightarrow> point list option option" where
  "horizontal_leg g y [] path = Some (Some path)"
| "horizontal_leg g y (x # xs) path =
     do { b \<leftarrow> blocked g x y;
          if b then Some None else horizontal_leg g y xs (path @ [(x, y)]) }"

fun vertical_leg :: "grid \<Rightarrow> int \<Rightarrow> int list \<Rightarrow> point list \<Rightarrow> point list option option" where
  "vertical_leg g x [] path = Some (Some path)"
| "vertical_leg g x (y # ys) path =
     do { b \<leftarrow> blocked g x y;
          if b then Some None else vertical_leg g x ys (path @ [(x, y)]) }"

definition route_horizontal_first :: "grid \<Rightarrow> point \<Rightarrow> point \<Rightarrow> point list option option" where
  "route_horizontal_first g start_pt end_pt =
     (case start_pt of (x1, y1) \<Rightarrow> case end_pt of (x2, y2) \<Rightarrow>
        do { leg1 \<leftarrow>
               (if x1 \<noteq> x2
                then let direction = (if x2 > x1 then 1 else - 1)
                     in do { xs \<leftarrow> py_range x1 (x2 + direction) direction;
                             horizontal_leg g y1 xs [] }
                else Some (Some [(x1, y1)]));
             case leg1 of
               None \<Rightarrow> Some None
             | Some path \<Rightarrow>
                 if y1 \<noteq> y2
                 then let direction = (if y2 > y1 then 1 else - 1)
                      in do { ys \<leftarrow> py_range (y1 + direction) (y2 + direction) direction;
                              vertical_leg g x2 ys path }
                 else Some (Some path) })"

definition route_vertical_first :: "grid \<Rightarrow> point \<Rightarrow> point \<Rightarrow> point list option option" where
  "route_vertical_first g start_pt end_pt =
     (case start_pt of (x1, y1) \<Rightarrow> case end_pt of (x2, y2) \<Rightarrow>
        do { leg1 \<leftarrow>
               (if y1 \<noteq> y2
                then let direction = (if y2 > y1 then 1 else - 1)
                     in do { ys \<leftarrow> py_range y1 (y2 + direction) direction;
                             vertical_leg g x1 ys [] }
                else Some (Some [(x1, y1)]));
             case leg1 of
               None \<Rightarrow> Some None
             | Some path \<Rightarrow>
                 if x1 \<noteq> x2
                 then let direction = (if x2 > x1 then 1 else - 1)
                      in do { xs \<leftarrow> py_range (x1 + direction) (x2 + direction) direction;
                              horizontal_leg g y2 xs path }
                 else Some (Some path) })"

text \<open>
  The truth value Python gives a route in \<open>if route1 and route2\<close>: \<open>None\<close> and the empty
  list are false.
\<close>

definition truthy :: "point list option \<Rightarrow> bool" where
  "truthy r = (case r of None \<Rightarrow> False | Some path \<Rightarrow> path \<noteq> [])"

definition manhattan_routing :: "grid \<Rightarrow> point \<Rightarrow> point \<Rightarrow> point list option" where
  "manhattan_routing g start goal =
     do { route1 \<leftarrow> route_horizontal_first g start goal;
          route2 \<leftarrow> route_vertical_first g start goal;
          if truthy route1 \<and> truthy route2
          then (if length (the route1) \<le> length (the route2) then route1 else route2)
          else if truthy route1 then route1
          else if truthy route2 then route2
          else a_star g start goal }"

section \<open>Choosing a strategy: \<open>find_best_path\<close>\<close>

definition find_best_path :: "grid \<Rightarrow> point \<Rightarrow> point \<Rightarrow> bool \<Rightarrow> point list option" where
  "find_best_path g start goal prefer_manhattan =
     do { path \<leftarrow>
            (if prefer_manhattan
             then do { path \<leftarrow> manhattan_routing g start goal;
                       if path = [] then a_star g start goal else Some path }
             else a_star g start goal);
          if path \<noteq> [] then optimize_path g path else Some path }"

section \<open>Obstacle map builder and router: \<open>create_obstacle_map\<close>, \<open>analyze_circuit\<close>\<close>

text \<open>
  An image is a numpy array of two dimensions (one channel) or of three (colour).
\<close>

datatype image = Gray grid | Color nat nat "nat \<Rightarrow> nat \<Rightarrow> nat \<Rightarrow> 8 word"

definition image_height :: "image \<Rightarrow> nat" where
  "image_height img = (case img of Gray g \<Rightarrow> height g | Color h w px \<Rightarrow> h)"

definition image_width :: "image \<Rightarrow> nat" where
  "image_width img = (case img of Gray g \<Rightarrow> width g | Color h w px \<Rightarrow> w)"

text \<open>
  OpenCV is not part of the repository. The four functions of it that the builder calls
  are parameters of the model, each of which may raise; \<open>'k\<close> is the type of
  structuring elements.
\<close>

record 'k cv2 =
  cvtColor :: "image \<Rightarrow> grid option"
  adaptiveThreshold :: "grid \<Rightarrow> grid option"
  getStructuringElement :: "int \<times> int \<Rightarrow> 'k option"
  dilate :: "grid \<Rightarrow> 'k \<Rightarrow> grid option"

text \<open>The two attributes of \<open>GenericObstacleDetector\<close>.\<close>

record detector =
  obstacle_map :: "grid option"
  original_binary :: "grid option"

definition create_obstacle_map ::
  "'k cv2 \<Rightarrow> detector \<Rightarrow> image \<Rightarrow> int \<Rightarrow> int \<Rightarrow> (detector \<times> grid) option" where
  "create_obstacle_map cv d img dilation_size safety_padding =
     do { gray \<leftarrow> (case img of Color h w px \<Rightarrow> cvtColor cv img | Gray g \<Rightarrow> Some g);
          binary \<leftarrow> adaptiveThreshold cv gray;
          kernel \<leftarrow> getStructuringElement cv (dilation_size, dilation_size);
          dilated \<leftarrow> dilate cv binary kernel;
          dilated \<leftarrow>
            (if safety_padding > 0
             then do { padding_kernel \<leftarrow>
                         getStructuringElement cv (safety_padding * 2 + 1, safety_padding * 2 + 1);
                       dilate cv dilated padding_kernel }
             else Some dilated);
          Some (d\<lparr>original_binary := Some binary, obstacle_map := Some dilated\<rparr>, dilated) }"

text \<open>
  The attributes of \<open>SmartWireRouter\<close> that the generic detection and the routing use.
\<close>

record router =
  use_generic_detection :: bool
  obstacle_detector :: detector
  current_obstacle_map :: "grid option"

definition detector_init :: detector where
  "detector_init = \<lparr>obstacle_map = None, original_binary = None\<rparr>"

definition router_init :: "bool \<Rightarrow> router" where
  "router_init generic =
     \<lparr>use_generic_detection = generic, obstacle_detector = detector_init,
      current_obstacle_map = None\<rparr>"

text \<open>
  Python's floats are the IEEE 754 double precision numbers, here the rational numbers
  they denote. \<open>to_double\<close> rounds a rational to the nearest double, ties to the even
  significand of 53 bits (exponent range left aside: the values below lie between 0
  and 100). Python's \<open>a / b\<close> on integers, its float product and \<open>round(x, n)\<close> are each
  correctly rounded; \<open>round\<close> rounds the decimal expansion half to even.
\<close>

function bit_length :: "int \<Rightarrow> int" where
  "bit_length n = (if n \<le> 0 then 0 else 1 + bit_length (n div 2))"
  by pat_completeness auto

termination
  by (relation "measure nat") auto

declare bit_length.simps [simp del]

definition pow2 :: "int \<Rightarrow> rat" where
  "pow2 e = (if e \<ge> 0 then 2 ^ nat e else 1 / 2 ^ nat (- e))"

definition ilog2 :: "rat \<Rightarrow> int" where
  "ilog2 x =
     (case quotient_of x of (p, q) \<Rightarrow>
        let d = bit_length p - bit_length q
        in if pow2 d \<le> x then d else d - 1)"

definition round_half_even :: "rat \<Rightarrow> int" where
  "round_half_even x =
     (let f = \<lfloor>x\<rfloor>; r = x - of_int f
      in if r < 1 / 2 then f else if r > 1 / 2 then f + 1 else if even f then f else f + 1)"

definition to_double :: "rat \<Rightarrow> rat" where
  "to_double x =
     (if x = 0 then 0
      else let e = ilog2 \<bar>x\<bar> - 52
           in sgn x * of_int (round_half_even (\<bar>x\<bar> / pow2 e)) * pow2 e)"

definition py_truediv :: "int \<Rightarrow> int \<Rightarrow> rat option" where
  "py_truediv a b = (if b = 0 then None else Some (to_double (of_int a / of_int b)))"

definition py_fmul :: "rat \<Rightarrow> rat \<Rightarrow> rat" where
  "py_fmul x y = to_double (x * y)"

definition py_round :: "rat \<Rightarrow> nat \<Rightarrow> rat" where
  "py_round x ndigits = to_double (of_int (round_half_even (x * 10 ^ ndigits)) / 10 ^ ndigits)"

text \<open>
  \<open>np.count_nonzero\<close> of the array of truth values of a test on the cells:
  \<open>np.count_nonzero(m)\<close> is \<open>count_cells (\<lambda>v. v \<noteq> 0) m\<close> and \<open>np.count_nonzero(m == 0)\<close> is
  \<open>count_cells (\<lambda>v. v = 0) m\<close>.
\<close>

definition count_cells :: "(8 word \<Rightarrow> bool) \<Rightarrow> grid \<Rightarrow> int" where
  "count_cells P m =
     int (sum_list (map (\<lambda>y. length (filter (\<lambda>x. P (cells m y x)) [0 ..< width m]))
                        [0 ..< height m]))"

text \<open>
  The dictionary that the generic branch returns; its keys \<open>method\<close> and \<open>obstacle_map\<close> are
  the fields \<open>analysis_method\<close> and \<open>analysis_map\<close>.
\<close>

record analysis =
  analysis_method :: string
  analysis_map :: grid
  obstacle_pixels :: int
  free_pixels :: int
  coverage :: rat

text \<open>
  \<open>SmartWireRouter.analyze_circuit\<close>. The other branch reads \<open>self.symbol_detector\<close>,
  an attribute that \<open>__init__\<close> never sets: it raises AttributeError.
\<close>

definition analyze_circuit ::
  "'k cv2 \<Rightarrow> router \<Rightarrow> image \<Rightarrow> int \<Rightarrow> int \<Rightarrow> (router \<times> analysis) option" where
  "analyze_circuit cv r img dilation_size safety_padding =
     (if use_generic_detection r
      then do { built \<leftarrow> create_obstacle_map cv (obstacle_detector r) img
                            dilation_size safety_padding;
                let m = snd built;
                    r' = r\<lparr>obstacle_detector := fst built, current_obstacle_map := Some m\<rparr>;
                    obstacle_pixels = count_cells (\<lambda>v. v \<noteq> 0) m;
                    free_pixels = count_cells (\<lambda>v. v = 0) m
                in do { ratio \<leftarrow> py_truediv obstacle_pixels (obstacle_pixels + free_pixels);
                        Some (r', \<lparr>analysis_method = ''generic'', analysis_map = m,
                                   obstacle_pixels = obstacle_pixels, free_pixels = free_pixels,
                                   coverage = py_round (py_fmul ratio 100) 2\<rparr>) } }
      else None)"

text \<open>
  \<open>SmartWireRouter.route_wire\<close>: the current obstacle map is \<open>None\<close> until
  \<open>analyze_circuit\<close> has run, and \<open>route_wire\<close> raises ValueError in that case.
\<close>

definition route_wire :: "router \<Rightarrow> point \<Rightarrow> point \<Rightarrow> string \<Rightarrow> point list option" where
  "route_wire r start_point end_point routing_style =
     (case current_obstacle_map r of
        None \<Rightarrow> None
      | Some g \<Rightarrow>
          do { path \<leftarrow>
                 (if routing_style = ''manhattan''
                  then do { path \<leftarrow> manhattan_routing g start_point end_point;
                            if path = [] then a_star g start_point end_point else Some path }
                  else a_star g start_point end_point);
               if path \<noteq> [] then optimize_path g path else Some path })"

section \<open>Auxiliary notions used in the proofs\<close>

text \<open>
  How many more passes the walk can make from an in-bounds cell before it leaves the
  grid: each coordinate only ever moves in the direction of its step.
\<close>

definition exit_dist :: "grid \<Rightarrow> int \<Rightarrow> int \<Rightarrow> int \<times> int \<times> int \<Rightarrow> nat" where
  "exit_dist g xs ys s =
     (case s of (err, x, y) \<Rightarrow>
        nat (if xs = 1 then int (width g) - x else x + 1) +
        nat (if ys = 1 then int (height g) - y else y + 1))"

text \<open>
  What a result \<open>r\<close> of the walk from state \<open>s\<close> says about the cells sampled from
  \<open>s\<close> on.
\<close>

definition walk_ok ::
  "grid \<Rightarrow> int \<Rightarrow> int \<Rightarrow> int \<Rightarrow> int \<Rightarrow> int \<Rightarrow> int \<Rightarrow> int \<times> int \<times> int \<Rightarrow> bool \<Rightarrow> bool" where
  "walk_ok g x1 y1 dx dy xs ys s r =
     (if r then (\<exists>n. snd ((line_step dx dy xs ys ^^ n) s) = (x1, y1) \<and>
                   (\<forall>k\<le>n. passable g (snd ((line_step dx dy xs ys ^^ k) s))))
      else (\<exists>n. \<not> passable g (snd ((line_step dx dy xs ys ^^ n) s)) \<and>
                (\<forall>k<n. passable g (snd ((line_step dx dy xs ys ^^ k) s)) \<and>
                       snd ((line_step dx dy xs ys ^^ k) s) \<noteq> (x1, y1))))"

text \<open>Whether the line-of-sight test answers \<open>True\<close>.\<close>

definition clear_line :: "grid \<Rightarrow> point \<Rightarrow> point \<Rightarrow> bool" where
  "clear_line g a b = (can_connect_directly g a b = Some True)"

text \<open>A grid of 5 columns and 2 rows with one obstacle, at \<open>(x, y) = (2, 1)\<close>.\<close>

definition grid_5x2 :: grid where
  "grid_5x2 = \<lparr>height = 2, width = 5, cells = (\<lambda>y x. if x = 2 \<and> y = 1 then 255 else 0)\<rparr>"

text \<open>
  Two points are linked when the line-of-sight test passes between them or when they are
  neighbours in the given path.
\<close>

definition link :: "grid \<Rightarrow> point list \<Rightarrow> point \<Rightarrow> point \<Rightarrow> bool" where
  "link g path u v =
     (clear_line g u v \<or> (\<exists>k. Suc k < length path \<and> u = path ! k \<and> v = path ! Suc k))"

text \<open>
  The point at index \<open>k\<close> of a path sees both the next point and the one after it: the
  look-ahead from \<open>k\<close> then goes past \<open>k + 1\<close>.
\<close>

definition sees_two :: "grid \<Rightarrow> point list \<Rightarrow> nat \<Rightarrow> bool" where
  "sees_two g path k =
     (k + 2 < length path \<and> clear_line g (path ! k) (path ! (k + 1)) \<and>
      clear_line g (path ! k) (path ! (k + 2)))"

text \<open>The eight cells around a point that are inside the grid and free, in source order.\<close>

definition nbrs :: "grid \<Rightarrow> point \<Rightarrow> point list" where
  "nbrs g p = filter (free_cell g) (map (\<lambda>(dx, dy). (fst p + dx, snd p + dy)) directions)"

text \<open>A move to one of the 8 surrounding cells.\<close>

definition king_move :: "point \<Rightarrow> point \<Rightarrow> bool" where
  "king_move a b = (max \<bar>fst b - fst a\<bar> \<bar>snd b - snd a\<bar> = 1)"

text \<open>A grid of 2 columns and 2 rows whose diagonal \<open>(0,0), (1,1)\<close> is free.\<close>

definition grid_diag :: grid where
  "grid_diag = \<lparr>height = 2, width = 2, cells = (\<lambda>y x. if x = y then 0 else 255)\<rparr>"


section \<open>Auxiliary notions for the search\<close>

text \<open>
  What holds of the state of \<open>a_star\<close> before every pass through its loop: the start
  has score 0; every scored point is the start or a free cell; every frontier entry is
  scored; scores are multiples of one fifth (sums of 1.0 and 1.4); every scored point
  but the start has a parent, and a parent's score is below its child's.
\<close>

definition astar_inv :: "grid \<Rightarrow> point \<Rightarrow> astar_state \<Rightarrow> bool" where
  "astar_inv g start st \<longleftrightarrow>
     g_score st start = Some 0 \<and>
     (\<forall>n. n \<in> dom (g_score st) \<longrightarrow> n = start \<or> free_cell g n) \<and>
     (\<forall>e. e \<in> set (open_set st) \<longrightarrow> snd e \<in> dom (g_score st)) \<and>
     (\<forall>n v. g_score st n = Some v \<longrightarrow> (\<exists>k::nat. v = real k / 5)) \<and>
     dom (came_from st) = dom (g_score st) - {start} \<and>
     (\<forall>n p. came_from st n = Some p \<longrightarrow>
        (\<exists>gp gn. g_score st p = Some gp \<and> g_score st n = Some gn \<and> gp < gn))"

text \<open>The points that can ever be scored, and the measure of progress of the search.\<close>

definition universe :: "grid \<Rightarrow> point \<Rightarrow> point set" where
  "universe g start = insert start {p. free_cell g p}"

definition unseen :: "grid \<Rightarrow> point \<Rightarrow> astar_state \<Rightarrow> nat" where
  "unseen g start st = card {n \<in> universe g start. g_score st n = None}"

definition weight :: "grid \<Rightarrow> point \<Rightarrow> astar_state \<Rightarrow> nat" where
  "weight g start st =
     (\<Sum>n \<in> universe g start. case g_score st n of None \<Rightarrow> 0 | Some v \<Rightarrow> nat \<lfloor>5 * v\<rfloor>)"

definition lighter :: "grid \<Rightarrow> point \<Rightarrow> astar_state \<Rightarrow> astar_state \<Rightarrow> bool" where
  "lighter g start st' st \<longleftrightarrow>
     unseen g start st' < unseen g start st \<or>
     (unseen g start st' = unseen g start st \<and> weight g start st' < weight g start st)"

text \<open>
  Every scored point is still on the frontier, or is one of the points \<open>X\<close> being
  expanded, or is not the goal and has all its neighbours scored.
\<close>

definition frontier_closed :: "grid \<Rightarrow> point \<Rightarrow> astar_state \<Rightarrow> point set \<Rightarrow> bool" where
  "frontier_closed g goal st X \<longleftrightarrow>
     (\<forall>n. n \<in> dom (g_score st) \<longrightarrow>
        n \<in> snd ` set (open_set st) \<or> n \<in> X \<or>
        (n \<noteq> goal \<and> set (nbrs g n) \<subseteq> dom (g_score st)))"

text \<open>
  The goal can be reached from the start by moves to one of the 8 surrounding cells,
  each landing on a free cell.
\<close>

definition reachable :: "grid \<Rightarrow> point \<Rightarrow> point \<Rightarrow> bool" where
  "reachable g = (\<lambda>a b. king_move a b \<and> free_cell g b)\<^sup>*\<^sup>*"

text \<open>Two states that differ at most in the arrangement of the frontier.\<close>

definition same_frontier :: "astar_state \<Rightarrow> astar_state \<Rightarrow> bool" where
  "same_frontier st st' \<longleftrightarrow>
     mset (open_set st) = mset (open_set st') \<and> came_from st = came_from st' \<and>
     g_score st = g_score st' \<and> f_score st = f_score st'"

text \<open>The progress measure of the loop, compared lexicographically.\<close>

definition astar_measure :: "grid \<Rightarrow> point \<Rightarrow> (astar_state \<times> astar_state) set" where
  "astar_measure g start =
     measures [unseen g start, weight g start, \<lambda>st. length (open_set st)]"

text \<open>What a result of the search says about the grid.\<close>

definition astar_result :: "grid \<Rightarrow> point \<Rightarrow> point \<Rightarrow> point list \<Rightarrow> bool" where
  "astar_result g start goal r \<longleftrightarrow>
     (r = [] \<longrightarrow> \<not> reachable g start goal) \<and>
     (r \<noteq> [] \<longrightarrow> hd r = start \<and> last r = goal \<and> (\<forall>p. p \<in> set (tl r) \<longrightarrow> free_cell g p))"

section \<open>Auxiliary notions for the elbow routes\<close>

text \<open>
  The values of \<open>range(a, ..., d)\<close> for a step \<open>d\<close>, the direction from one coordinate
  to another, and the cells of the two elbows with the cells each route function tests:
  the first cell of a route is not tested when its first leg is empty.
\<close>

definition steps :: "int \<Rightarrow> int \<Rightarrow> nat \<Rightarrow> int list" where
  "steps a d n = map (\<lambda>k. a + d * int k) [0 ..< n]"

definition dir :: "int \<Rightarrow> int \<Rightarrow> int" where
  "dir a b = (if b > a then 1 else - 1)"

definition elbow_h :: "point \<Rightarrow> point \<Rightarrow> point list" where
  "elbow_h s t =
     (case s of (x1, y1) \<Rightarrow> case t of (x2, y2) \<Rightarrow>
        (if x1 \<noteq> x2 then map (\<lambda>x. (x, y1)) (steps x1 (dir x1 x2) (Suc (nat \<bar>x2 - x1\<bar>)))
         else [(x1, y1)]) @
        (if y1 \<noteq> y2 then map (\<lambda>y. (x2, y)) (steps (y1 + dir y1 y2) (dir y1 y2) (nat \<bar>y2 - y1\<bar>))
         else []))"

definition elbow_v :: "point \<Rightarrow> point \<Rightarrow> point list" where
  "elbow_v s t =
     (case s of (x1, y1) \<Rightarrow> case t of (x2, y2) \<Rightarrow>
        (if y1 \<noteq> y2 then map (\<lambda>y. (x1, y)) (steps y1 (dir y1 y2) (Suc (nat \<bar>y2 - y1\<bar>)))
         else [(x1, y1)]) @
        (if x1 \<noteq> x2 then map (\<lambda>x. (x, y2)) (steps (x1 + dir x1 x2) (dir x1 x2) (nat \<bar>x2 - x1\<bar>))
         else []))"

definition checked_h :: "point \<Rightarrow> point \<Rightarrow> point list" where
  "checked_h s t = (if fst s \<noteq> fst t then elbow_h s t else tl (elbow_h s t))"

definition checked_v :: "point \<Rightarrow> point \<Rightarrow> point list" where
  "checked_v s t = (if snd s \<noteq> snd t then elbow_v s t else tl (elbow_v s t))"

section \<open>Auxiliary notions for the analysis\<close>

text \<open>
  What the OpenCV documentation states of the shapes: the grey image has the height and
  width of the colour image, and thresholding and dilation return an array of the shape
  of their input.
\<close>

definition keeps_shape :: "'k cv2 \<Rightarrow> bool" where
  "keeps_shape cv \<longleftrightarrow>
     (\<forall>img g. cvtColor cv img = Some g \<longrightarrow>
        height g = image_height img \<and> width g = image_width img) \<and>
     (\<forall>g g'. adaptiveThreshold cv g = Some g' \<longrightarrow> height g' = height g \<and> width g' = width g) \<and>
     (\<forall>g k g'. dilate cv g k = Some g' \<longrightarrow> height g' = height g \<and> width g' = width g)"

text \<open>
  A stand-in for OpenCV on images that are black and white already: the grey image is the
  first channel, thresholding and dilation keep every cell (as a dilation by a 1x1
  element does).
\<close>

definition cv_plain :: "unit cv2" where
  "cv_plain =
     \<lparr>cvtColor = (\<lambda>img. case img of
                      Gray g \<Rightarrow> Some g
                    | Color h w px \<Rightarrow> Some \<lparr>height = h, width = w, cells = (\<lambda>y x. px y x 0)\<rparr>),
      adaptiveThreshold = Some,
      getStructuringElement = (\<lambda>size. Some ()),
      dilate = (\<lambda>g kernel. Some g)\<rparr>"

text \<open>A map of 16 columns and 10 rows, 23 of whose 160 cells are obstacles.\<close>

definition grid_16x10 :: grid where
  "grid_16x10 = \<lparr>height = 10, width = 16, cells = (\<lambda>y x. if y * 16 + x < 23 then 255 else 0)\<rparr>"


section \<open>Line of sight: termination and the sampled cells\<close>

lemma blocked_eq: "blocked g x y = Some (\<not> passable g (x, y))"
  by (auto simp: blocked_def np_get_def passable_def Let_def)

lemma los_loop_unfold:
  "los_loop g x1 y1 dx dy xs ys (err, x, y) =
     (if \<not> passable g (x, y) then Some False
      else if x = x1 \<and> y = y1 then Some True
      else los_loop g x1 y1 dx dy xs ys (line_step dx dy xs ys (err, x, y)))"
  by (subst los_loop.simps) (simp add: blocked_eq)

lemma line_step_moves:
  assumes "xs = 1 \<or> xs = - 1" "ys = 1 \<or> ys = - 1" "0 \<le> dx" "0 \<le> dy" "dx \<noteq> 0 \<or> dy \<noteq> 0"
    and "passable g (x, y)"
  shows "exit_dist g xs ys (line_step dx dy xs ys (err, x, y)) < exit_dist g xs ys (err, x, y)"
  using assms by (auto simp: line_step_def exit_dist_def passable_def Let_def split: if_splits)

lemma los_loop_total:
  assumes "xs = 1 \<or> xs = - 1" "ys = 1 \<or> ys = - 1" "0 \<le> dx" "0 \<le> dy" "dx \<noteq> 0 \<or> dy \<noteq> 0"
  shows "\<exists>r. los_loop g x1 y1 dx dy xs ys s = Some r"
proof (induction "exit_dist g xs ys s" arbitrary: s rule: less_induct)
  case less
  obtain err x y where s: "s = (err, x, y)" by (cases s) auto
  show ?case
  proof (cases "passable g (x, y) \<and> \<not> (x = x1 \<and> y = y1)")
    case True
    then have "exit_dist g xs ys (line_step dx dy xs ys s) < exit_dist g xs ys s"
      unfolding s using line_step_moves [OF assms] by blast
    from less [OF this] obtain r where
      "los_loop g x1 y1 dx dy xs ys (line_step dx dy xs ys s) = Some r" by blast
    moreover have "los_loop g x1 y1 dx dy xs ys s =
        los_loop g x1 y1 dx dy xs ys (line_step dx dy xs ys s)"
      unfolding s using True by (subst los_loop_unfold) auto
    ultimately show ?thesis by simp
  next
    case False
    then show ?thesis unfolding s by (subst los_loop_unfold) auto
  qed
qed

lemma can_connect_directly_total: "\<exists>r. can_connect_directly g a b = Some r"
proof -
  obtain x0 y0 x1 y1 where ab: "a = (x0, y0)" "b = (x1, y1)" by (cases a, cases b) auto
  show ?thesis
  proof (cases "x0 = x1 \<and> y0 = y1")
    case True
    then show ?thesis
      unfolding ab can_connect_directly_def by (auto simp add: los_loop_unfold Let_def)
  next
    case False
    then have "\<bar>x1 - x0\<bar> \<noteq> 0 \<or> \<bar>y1 - y0\<bar> \<noteq> 0" by auto
    then show ?thesis
      unfolding ab can_connect_directly_def
      by (simp only: Let_def prod.case) (rule los_loop_total; simp)
  qed
qed

lemma los_loop_reaches:
  "snd ((line_step dx dy xs ys ^^ n) s) = (x1, y1) \<Longrightarrow>
   (\<forall>k\<le>n. passable g (snd ((line_step dx dy xs ys ^^ k) s))) \<Longrightarrow>
   los_loop g x1 y1 dx dy xs ys s = Some True"
proof (induction n arbitrary: s)
  case 0
  obtain err x y where s: "s = (err, x, y)" by (cases s) auto
  from 0 show ?case unfolding s by (subst los_loop_unfold) simp
next
  case (Suc n)
  obtain err x y where s: "s = (err, x, y)" by (cases s) auto
  have p0: "passable g (x, y)" using Suc.prems(2) [rule_format, of 0] by (simp add: s)
  show ?case
  proof (cases "x = x1 \<and> y = y1")
    case True
    with p0 show ?thesis unfolding s by (subst los_loop_unfold) simp
  next
    case False
    have "los_loop g x1 y1 dx dy xs ys (line_step dx dy xs ys s) = Some True"
    proof (rule Suc.IH)
      show "snd ((line_step dx dy xs ys ^^ n) (line_step dx dy xs ys s)) = (x1, y1)"
        using Suc.prems(1) by (simp add: funpow_swap1)
      show "\<forall>k\<le>n. passable g (snd ((line_step dx dy xs ys ^^ k) (line_step dx dy xs ys s)))"
      proof (intro allI impI)
        fix k assume "k \<le> n"
        then have "Suc k \<le> Suc n" by simp
        from Suc.prems(2) [rule_format, OF this] show
          "passable g (snd ((line_step dx dy xs ys ^^ k) (line_step dx dy xs ys s)))"
          by (simp add: funpow_swap1)
      qed
    qed
    with p0 False show ?thesis unfolding s by (subst los_loop_unfold) simp
  qed
qed

lemma los_loop_stops:
  "\<not> passable g (snd ((line_step dx dy xs ys ^^ n) s)) \<Longrightarrow>
   (\<forall>k<n. passable g (snd ((line_step dx dy xs ys ^^ k) s)) \<and>
          snd ((line_step dx dy xs ys ^^ k) s) \<noteq> (x1, y1)) \<Longrightarrow>
   los_loop g x1 y1 dx dy xs ys s = Some False"
proof (induction n arbitrary: s)
  case 0
  obtain err x y where s: "s = (err, x, y)" by (cases s) auto
  from 0 show ?case unfolding s by (subst los_loop_unfold) simp
next
  case (Suc n)
  obtain err x y where s: "s = (err, x, y)" by (cases s) auto
  have p0: "passable g (x, y)" "\<not> (x = x1 \<and> y = y1)"
    using Suc.prems(2) [rule_format, of 0] by (auto simp: s)
  have "los_loop g x1 y1 dx dy xs ys (line_step dx dy xs ys s) = Some False"
  proof (rule Suc.IH)
    show "\<not> passable g (snd ((line_step dx dy xs ys ^^ n) (line_step dx dy xs ys s)))"
      using Suc.prems(1) by (simp add: funpow_swap1)
    show "\<forall>k<n. passable g (snd ((line_step dx dy xs ys ^^ k) (line_step dx dy xs ys s))) \<and>
            snd ((line_step dx dy xs ys ^^ k) (line_step dx dy xs ys s)) \<noteq> (x1, y1)"
    proof (intro allI impI)
      fix k assume "k < n"
      then have "Suc k < Suc n" by simp
      from Suc.prems(2) [rule_format, OF this] show
        "passable g (snd ((line_step dx dy xs ys ^^ k) (line_step dx dy xs ys s))) \<and>
         snd ((line_step dx dy xs ys ^^ k) (line_step dx dy xs ys s)) \<noteq> (x1, y1)"
        by (simp add: funpow_swap1)
    qed
  qed
  with p0 show ?case unfolding s by (subst los_loop_unfold) simp
qed

lemma walk_ok_blocked: "\<not> passable g (snd s) \<Longrightarrow> walk_ok g x1 y1 dx dy xs ys s False"
  unfolding walk_ok_def by (simp only: if_False) (rule exI [of _ 0], simp)

lemma walk_ok_arrived:
  "passable g (snd s) \<Longrightarrow> snd s = (x1, y1) \<Longrightarrow> walk_ok g x1 y1 dx dy xs ys s True"
  unfolding walk_ok_def by (simp only: if_True) (rule exI [of _ 0], simp)

lemma walk_ok_step:
  assumes "passable g (snd s)" "snd s \<noteq> (x1, y1)"
    and "walk_ok g x1 y1 dx dy xs ys (line_step dx dy xs ys s) r"
  shows "walk_ok g x1 y1 dx dy xs ys s r"
proof (cases r)
  case True
  with assms(3) obtain n where n: "snd ((line_step dx dy xs ys ^^ n) (line_step dx dy xs ys s)) = (x1, y1)"
    "\<forall>k\<le>n. passable g (snd ((line_step dx dy xs ys ^^ k) (line_step dx dy xs ys s)))"
    by (auto simp: walk_ok_def)
  have "snd ((line_step dx dy xs ys ^^ Suc n) s) = (x1, y1)"
    using n(1) by (simp add: funpow_swap1)
  moreover have "\<forall>k\<le>Suc n. passable g (snd ((line_step dx dy xs ys ^^ k) s))"
  proof (intro allI impI)
    fix k assume k: "k \<le> Suc n"
    show "passable g (snd ((line_step dx dy xs ys ^^ k) s))"
    proof (cases k)
      case 0 then show ?thesis using assms(1) by simp
    next
      case (Suc j)
      with k have "j \<le> n" by simp
      with n(2) show ?thesis unfolding Suc by (simp add: funpow_swap1)
    qed
  qed
  ultimately show ?thesis using True unfolding walk_ok_def by (simp only: if_True) blast
next
  case False
  with assms(3) obtain n where n: "\<not> passable g (snd ((line_step dx dy xs ys ^^ n) (line_step dx dy xs ys s)))"
    "\<forall>k<n. passable g (snd ((line_step dx dy xs ys ^^ k) (line_step dx dy xs ys s))) \<and>
       snd ((line_step dx dy xs ys ^^ k) (line_step dx dy xs ys s)) \<noteq> (x1, y1)"
    by (auto simp: walk_ok_def)
  have "\<not> passable g (snd ((line_step dx dy xs ys ^^ Suc n) s))"
    using n(1) by (simp add: funpow_swap1)
  moreover have "\<forall>k<Suc n. passable g (snd ((line_step dx dy xs ys ^^ k) s)) \<and>
       snd ((line_step dx dy xs ys ^^ k) s) \<noteq> (x1, y1)"
  proof (intro allI impI)
    fix k assume k: "k < Suc n"
    show "passable g (snd ((line_step dx dy xs ys ^^ k) s)) \<and>
       snd ((line_step dx dy xs ys ^^ k) s) \<noteq> (x1, y1)"
    proof (cases k)
      case 0 then show ?thesis using assms(1,2) by simp
    next
      case (Suc j)
      with k have "j < n" by simp
      with n(2) show ?thesis unfolding Suc by (simp add: funpow_swap1)
    qed
  qed
  ultimately show ?thesis using False unfolding walk_ok_def by (simp only: if_False) blast
qed

lemma los_loop_sound:
  "los_loop g x1 y1 dx dy xs ys s = Some r \<Longrightarrow> walk_ok g x1 y1 dx dy xs ys s r"
proof (induction g x1 y1 dx dy xs ys s r rule: los_loop.raw_induct [rotated 1, consumes 1, case_names step])
  case (step f g x1 y1 dx dy xs ys s r)
  note 1 = step
  obtain err x y where s: "s = (err, x, y)" by (cases s) auto
  show ?case
  proof (cases "passable g (x, y)")
    case False
    with 1(2) have r: "r = False" by (simp add: s blocked_eq)
    from False have "\<not> passable g (snd s)" by (simp add: s)
    then show ?thesis using r walk_ok_blocked [of g s x1 y1 dx dy xs ys] by blast
  next
    case p: True
    show ?thesis
    proof (cases "x = x1 \<and> y = y1")
      case True
      with 1(2) p have r: "r = True" by (simp add: s blocked_eq)
      from p True have "passable g (snd s)" "snd s = (x1, y1)" by (simp_all add: s)
      then show ?thesis using r walk_ok_arrived [of g s x1 y1 dx dy xs ys] by blast
    next
      case False
      with 1(2) p have "f g x1 y1 dx dy xs ys (line_step dx dy xs ys s) = Some r"
        by (simp add: s blocked_eq)
      from 1(1) [OF this] show ?thesis
        using walk_ok_step [of g s x1 y1 dx dy xs ys r] p False by (simp add: s)
    qed
  qed
qed

lemma line_cell_funpow:
  "line_cell (x0, y0) (x1, y1) n =
     snd ((line_step \<bar>x1 - x0\<bar> \<bar>y1 - y0\<bar> (if x0 < x1 then 1 else - 1)
            (if y0 < y1 then 1 else - 1) ^^ n) (\<bar>x1 - x0\<bar> - \<bar>y1 - y0\<bar>, x0, y0))"
  by (simp add: line_cell_def line_state_def Let_def)

lemma can_connect_directly_True_iff:
  "can_connect_directly g a b = Some True \<longleftrightarrow>
     (\<exists>n. line_cell a b n = b \<and> (\<forall>k\<le>n. passable g (line_cell a b k)))"
proof -
  obtain x0 y0 x1 y1 where ab: "a = (x0, y0)" "b = (x1, y1)" by (cases a, cases b) auto
  show ?thesis
    unfolding ab line_cell_funpow can_connect_directly_def
    using los_loop_reaches los_loop_sound [where r = True]
    by (auto simp: Let_def walk_ok_def)
qed

lemma can_connect_directly_False_iff:
  "can_connect_directly g a b = Some False \<longleftrightarrow>
     (\<exists>n. \<not> passable g (line_cell a b n) \<and>
          (\<forall>k<n. passable g (line_cell a b k) \<and> line_cell a b k \<noteq> b))"
proof -
  obtain x0 y0 x1 y1 where ab: "a = (x0, y0)" "b = (x1, y1)" by (cases a, cases b) auto
  show ?thesis
    unfolding ab line_cell_funpow can_connect_directly_def
    using los_loop_stops los_loop_sound [where r = False]
    by (auto simp: Let_def walk_ok_def)
qed

lemma can_connect_directly_eq: "can_connect_directly g a b = Some (clear_line g a b)"
  using can_connect_directly_total [of g a b] by (auto simp: clear_line_def)

lemma line_cell_0: "line_cell a b 0 = a"
  by (cases a, cases b) (simp add: line_cell_funpow)

lemma passable_binary: "binary_grid g \<Longrightarrow> passable g p = free_cell g p"
  by (cases p) (auto simp: binary_grid_def passable_def free_cell_def)

text \<open>
  Claim C6. For every grid and every two points, inside the grid or not, the
  line-of-sight test returns a value (it neither raises nor runs forever). The first cell
  it samples is \<open>a\<close>. It answers \<open>False\<close> exactly when the walk comes to a sampled cell
  that is an obstacle or outside the grid before it has stopped at \<open>b\<close>, and \<open>True\<close>
  exactly when the walk reaches \<open>b\<close> with every cell sampled up to there inside the grid
  and not an obstacle; so an endpoint that is an obstacle or out of range gives \<open>False\<close>.
  On a grid of the two values 0 and 255 the cells sampled on the way to a \<open>True\<close> answer
  are all free.
\<close>

theorem can_connect_directly_sampled_cells:
  "(\<exists>r. can_connect_directly g a b = Some r) \<and>
   line_cell a b 0 = a \<and>
   (can_connect_directly g a b = Some False \<longleftrightarrow>
      (\<exists>n. \<not> passable g (line_cell a b n) \<and>
           (\<forall>k<n. passable g (line_cell a b k) \<and> line_cell a b k \<noteq> b))) \<and>
   (can_connect_directly g a b = Some True \<longleftrightarrow>
      (\<exists>n. line_cell a b n = b \<and> (\<forall>k\<le>n. passable g (line_cell a b k)))) \<and>
   (\<not> passable g a \<or> \<not> passable g b \<longrightarrow> can_connect_directly g a b = Some False) \<and>
   (binary_grid g \<and> can_connect_directly g a b = Some True \<longrightarrow>
      (\<exists>n. line_cell a b n = b \<and> (\<forall>k\<le>n. free_cell g (line_cell a b k))))"
proof (intro conjI)
  show "\<exists>r. can_connect_directly g a b = Some r" by (rule can_connect_directly_total)
  show "line_cell a b 0 = a" by (rule line_cell_0)
  show "can_connect_directly g a b = Some False \<longleftrightarrow>
      (\<exists>n. \<not> passable g (line_cell a b n) \<and>
           (\<forall>k<n. passable g (line_cell a b k) \<and> line_cell a b k \<noteq> b))"
    by (rule can_connect_directly_False_iff)
  show T: "can_connect_directly g a b = Some True \<longleftrightarrow>
      (\<exists>n. line_cell a b n = b \<and> (\<forall>k\<le>n. passable g (line_cell a b k)))"
    by (rule can_connect_directly_True_iff)
  show "\<not> passable g a \<or> \<not> passable g b \<longrightarrow> can_connect_directly g a b = Some False"
  proof
    assume ep: "\<not> passable g a \<or> \<not> passable g b"
    have "can_connect_directly g a b \<noteq> Some True"
    proof
      assume "can_connect_directly g a b = Some True"
      with T obtain n where n: "line_cell a b n = b" "\<forall>k\<le>n. passable g (line_cell a b k)"
        by blast
      from n(2) have "passable g (line_cell a b 0)" "passable g (line_cell a b n)" by auto
      with n(1) ep show False by (simp add: line_cell_0)
    qed
    with can_connect_directly_total [of g a b] show "can_connect_directly g a b = Some False"
      by auto
  qed
  show "binary_grid g \<and> can_connect_directly g a b = Some True \<longrightarrow>
      (\<exists>n. line_cell a b n = b \<and> (\<forall>k\<le>n. free_cell g (line_cell a b k)))"
    using T by (auto simp: passable_binary)
qed

theorem can_connect_directly_sampled_cells_witness:
  "line_cell (0, 0) (3, 1) 2 = (2, 1) \<and> \<not> passable grid_5x2 (2, 1) \<and>
   can_connect_directly grid_5x2 (0, 0) (3, 1) = Some False \<and>
   can_connect_directly grid_5x2 (0, 0) (- 1, 0) = Some False"
proof -
  have c: "line_cell (0, 0) (3, 1) 0 = (0, 0)" "line_cell (0, 0) (3, 1) 1 = (1, 0)"
    "line_cell (0, 0) (3, 1) 2 = (2, 1)"
    by (simp_all add: line_cell_funpow line_step_def numeral_2_eq_2)
  have p: "passable grid_5x2 (0, 0)" "passable grid_5x2 (1, 0)" "\<not> passable grid_5x2 (2, 1)"
    "\<not> passable grid_5x2 (- 1, 0)"
    by (simp_all add: passable_def grid_5x2_def)
  have "\<forall>k<2. passable grid_5x2 (line_cell (0, 0) (3, 1) k) \<and> line_cell (0, 0) (3, 1) k \<noteq> (3, 1)"
  proof (intro allI impI)
    fix k :: nat assume "k < 2"
    then have "k = 0 \<or> k = 1" by auto
    then show "passable grid_5x2 (line_cell (0, 0) (3, 1) k) \<and> line_cell (0, 0) (3, 1) k \<noteq> (3, 1)"
      using c p by auto
  qed
  with c(3) p(3) have "\<exists>n. \<not> passable grid_5x2 (line_cell (0, 0) (3, 1) n) \<and>
      (\<forall>k<n. passable grid_5x2 (line_cell (0, 0) (3, 1) k) \<and> line_cell (0, 0) (3, 1) k \<noteq> (3, 1))"
    by (intro exI [of _ 2]) simp
  then have "can_connect_directly grid_5x2 (0, 0) (3, 1) = Some False"
    using can_connect_directly_sampled_cells [of grid_5x2 "(0, 0)" "(3, 1)"] by blast
  moreover have "can_connect_directly grid_5x2 (0, 0) (- 1, 0) = Some False"
    using can_connect_directly_sampled_cells [of grid_5x2 "(0, 0)" "(- 1, 0)"] p(4) by blast
  ultimately show ?thesis using c(3) p(3) by simp
qed

section \<open>Path simplification: what \<open>optimize_path\<close> returns\<close>

lemma py_get_nat: "0 \<le> i \<Longrightarrow> i < int (length xs) \<Longrightarrow> py_get xs i = Some (xs ! nat i)"
  by (simp add: py_get_def)

lemma py_get_last: "xs \<noteq> [] \<Longrightarrow> py_get xs (- 1) = Some (last xs)"
  by (cases xs rule: rev_cases) (auto simp: py_get_def nat_diff_distrib nth_append)

lemma scan_ahead_spec:
  assumes "0 \<le> i" "i < j" "j \<le> int (length path)"
  shows "\<exists>j'. scan_ahead g path i j = Some j' \<and> j \<le> j' \<and> j' \<le> int (length path) \<and>
           (\<forall>k. j \<le> k \<and> k < j' \<longrightarrow> clear_line g (path ! nat i) (path ! nat k)) \<and>
           (j' < int (length path) \<longrightarrow> \<not> clear_line g (path ! nat i) (path ! nat j'))"
  using assms
proof (induction g path i j rule: scan_ahead.induct)
  case (1 g path i j)
  show ?case
  proof (cases "j < int (length path)")
    case False
    with 1(4) have "j = int (length path)" by simp
    then have "scan_ahead g path i j = Some j" by (subst scan_ahead.simps) simp
    with False 1(4) show ?thesis by auto
  next
    case inb: True
    have gi: "py_get path i = Some (path ! nat i)" and gj: "py_get path j = Some (path ! nat j)"
      using 1(2,3) inb by (simp_all add: py_get_nat)
    show ?thesis
    proof (cases "clear_line g (path ! nat i) (path ! nat j)")
      case False
      then have "scan_ahead g path i j = Some j"
        using inb gi gj by (subst scan_ahead.simps) (simp add: can_connect_directly_eq)
      with False inb show ?thesis by auto
    next
      case cl: True
      have eq: "scan_ahead g path i j = scan_ahead g path i (j + 1)"
        using inb gi gj cl by (subst scan_ahead.simps) (simp add: can_connect_directly_eq)
      from "1.IH" [OF inb gi gj can_connect_directly_eq cl 1(2)] 1(3) inb
      obtain j' where j': "scan_ahead g path i (j + 1) = Some j'" "j + 1 \<le> j'"
        "j' \<le> int (length path)"
        "\<forall>k. j + 1 \<le> k \<and> k < j' \<longrightarrow> clear_line g (path ! nat i) (path ! nat k)"
        "j' < int (length path) \<longrightarrow> \<not> clear_line g (path ! nat i) (path ! nat j')"
        by auto
      have "\<forall>k. j \<le> k \<and> k < j' \<longrightarrow> clear_line g (path ! nat i) (path ! nat k)"
      proof (intro allI impI)
        fix k assume k: "j \<le> k \<and> k < j'"
        show "clear_line g (path ! nat i) (path ! nat k)"
        proof (cases "k = j")
          case True then show ?thesis using cl by simp
        next
          case False
          with k have "j + 1 \<le> k \<and> k < j'" by simp
          with j'(4) show ?thesis by blast
        qed
      qed
      with j' eq show ?thesis by auto
    qed
  qed
qed


lemma optimize_loop_step:
  assumes "0 \<le> i" "i < int (length path) - 1"
  shows "\<exists>i'. i < i' \<and> i' < int (length path) \<and>
           optimize_loop g path i optimized =
             optimize_loop g path i' (optimized @ [path ! nat i']) \<and>
           link g path (path ! nat i) (path ! nat i') \<and>
           (i' = i + 1 \<longleftrightarrow> \<not> sees_two g path (nat i))"
proof -
  from scan_ahead_spec [of i "i + 1" path g] assms
  obtain j where j: "scan_ahead g path i (i + 1) = Some j" "i + 1 \<le> j" "j \<le> int (length path)"
    "\<forall>k. i + 1 \<le> k \<and> k < j \<longrightarrow> clear_line g (path ! nat i) (path ! nat k)"
    "j < int (length path) \<longrightarrow> \<not> clear_line g (path ! nat i) (path ! nat j)"
    by auto
  have n1: "nat (i + 1) = nat i + 1" and n2: "nat (i + 2) = nat i + 2"
    using assms(1) by (simp_all add: nat_add_distrib)
  show ?thesis
  proof (cases "j - 1 > i")
    case True
    have g1: "py_get path (j - 1) = Some (path ! nat (j - 1))"
      using True assms(1) j(3) by (simp add: py_get_nat)
    have eq: "optimize_loop g path i optimized =
        optimize_loop g path (j - 1) (optimized @ [path ! nat (j - 1)])"
      using assms(2) j(1) True g1 by (subst optimize_loop.simps) simp
    have cl: "clear_line g (path ! nat i) (path ! nat (j - 1))"
      using j(4) True by simp
    have "(j - 1 = i + 1) \<longleftrightarrow> \<not> sees_two g path (nat i)"
    proof
      assume a: "j - 1 = i + 1"
      then have "j = i + 2" by simp
      with j(5) have "i + 2 < int (length path) \<longrightarrow>
          \<not> clear_line g (path ! nat i) (path ! nat (i + 2))" by simp
      then show "\<not> sees_two g path (nat i)"
        using assms(1) by (auto simp: sees_two_def n2)
    next
      assume ns: "\<not> sees_two g path (nat i)"
      show "j - 1 = i + 1"
      proof (rule ccontr)
        assume "j - 1 \<noteq> i + 1"
        with True have big: "i + 2 < j" by simp
        with j(4) have "clear_line g (path ! nat i) (path ! nat (i + 1))"
          "clear_line g (path ! nat i) (path ! nat (i + 2))" by simp_all
        moreover from big j(3) assms(1) have "nat i + 2 < length path" by simp
        ultimately show False using ns by (simp add: sees_two_def n1 n2)
      qed
    qed
    with True j(3) eq cl show ?thesis
      by (intro exI [of _ "j - 1"]) (simp add: link_def)
  next
    case False
    with j(2) have je: "j = i + 1" by simp
    have g1: "py_get path (i + 1) = Some (path ! nat (i + 1))"
      using assms by (simp add: py_get_nat)
    have eq: "optimize_loop g path i optimized =
        optimize_loop g path (i + 1) (optimized @ [path ! nat (i + 1)])"
      using assms(2) j(1) False g1 by (subst optimize_loop.simps) simp
    have "Suc (nat i) < length path" using assms by simp
    then have lk: "link g path (path ! nat i) (path ! nat (i + 1))"
      unfolding link_def n1 by auto
    have "\<not> clear_line g (path ! nat i) (path ! nat (i + 1))"
      using j(5) assms(2) je by simp
    then have "\<not> sees_two g path (nat i)" by (simp add: sees_two_def n1)
    with eq lk assms(2) show ?thesis
      by (intro exI [of _ "i + 1"]) simp
  qed
qed

lemma optimize_loop_spec:
  assumes "0 \<le> i" "i < int (length path)"
  shows "\<exists>ext. optimize_loop g path i optimized = Some (optimized @ ext) \<and>
           length ext \<le> length path - 1 - nat i \<and>
           last (path ! nat i # ext) = last path \<and>
           successively (link g path) (path ! nat i # ext) \<and>
           ((\<forall>k\<ge>nat i. \<not> sees_two g path k) \<longrightarrow> ext = drop (Suc (nat i)) path) \<and>
           ((\<exists>k\<ge>nat i. sees_two g path k) \<longrightarrow> length ext < length path - 1 - nat i)"
  using assms
proof (induction "nat (int (length path) - i)" arbitrary: i optimized rule: less_induct)
  case less
  show ?case
  proof (cases "i < int (length path) - 1")
    case False
    with less.prems have ie: "nat i = length path - 1" by linarith
    have ne: "path \<noteq> []" using less.prems by auto
    have "optimize_loop g path i optimized = Some optimized"
      using False by (subst optimize_loop.simps) simp
    moreover have "path ! nat i = last path" using ne by (simp add: ie last_conv_nth)
    moreover have "\<not> sees_two g path k" if "k \<ge> nat i" for k
    proof -
      from that ie have "\<not> k + 2 < length path" by linarith
      then show ?thesis by (simp add: sees_two_def)
    qed
    ultimately show ?thesis using ie by (intro exI [of _ "[]"]) auto
  next
    case True
    from optimize_loop_step [OF less.prems(1) True, of g optimized]
    obtain i' where i': "i < i'" "i' < int (length path)"
      "optimize_loop g path i optimized = optimize_loop g path i' (optimized @ [path ! nat i'])"
      "link g path (path ! nat i) (path ! nat i')"
      "i' = i + 1 \<longleftrightarrow> \<not> sees_two g path (nat i)"
      by blast
    have m: "nat (int (length path) - i') < nat (int (length path) - i)"
      using i'(1,2) by simp
    have i'0: "0 \<le> i'" using i'(1) less.prems(1) by simp
    from less.hyps [OF m i'0 i'(2), of "optimized @ [path ! nat i']"]
    obtain ext where ext:
      "optimize_loop g path i' (optimized @ [path ! nat i']) =
         Some ((optimized @ [path ! nat i']) @ ext)"
      "length ext \<le> length path - 1 - nat i'"
      "last (path ! nat i' # ext) = last path"
      "successively (link g path) (path ! nat i' # ext)"
      "(\<forall>k\<ge>nat i'. \<not> sees_two g path k) \<longrightarrow> ext = drop (Suc (nat i')) path"
      "(\<exists>k\<ge>nat i'. sees_two g path k) \<longrightarrow> length ext < length path - 1 - nat i'"
      by blast
    let ?e = "path ! nat i' # ext"
    have lt: "nat i < nat i'" "nat i' < length path"
      using i'(1,2) less.prems(1) by simp_all
    have c1: "optimize_loop g path i optimized = Some (optimized @ ?e)"
      using i'(3) ext(1) by simp
    have c2: "length ?e \<le> length path - 1 - nat i"
      using ext(2) lt unfolding length_Cons by linarith
    have c3: "last (path ! nat i # ?e) = last path" using ext(3) by simp
    have c4: "successively (link g path) (path ! nat i # ?e)"
      using ext(4) i'(4) by simp
    have c5: "?e = drop (Suc (nat i)) path" if a: "\<forall>k\<ge>nat i. \<not> sees_two g path k"
    proof -
      from a have "\<not> sees_two g path (nat i)" by simp
      with i'(5) have e: "i' = i + 1" by simp
      then have n: "nat i' = Suc (nat i)" using less.prems(1) by simp
      from a n have "\<forall>k\<ge>nat i'. \<not> sees_two g path k" by simp
      with ext(5) have "ext = drop (Suc (nat i')) path" by simp
      then show ?thesis using lt(2) unfolding n by (simp add: Cons_nth_drop_Suc)
    qed
    have c6: "length ?e < length path - 1 - nat i" if a: "\<exists>k\<ge>nat i. sees_two g path k"
    proof (cases "sees_two g path (nat i)")
      case True
      with i'(5) i'(1) have "i + 2 \<le> i'" by simp
      then have "nat i + 2 \<le> nat i'" using less.prems(1) by linarith
      with ext(2) lt show ?thesis unfolding length_Cons by linarith
    next
      case False
      with i'(5) have e: "i' = i + 1" by simp
      then have n: "nat i' = Suc (nat i)" using less.prems(1) by simp
      from a False obtain k where "k \<ge> nat i" "sees_two g path k" "k \<noteq> nat i" by metis
      then have "\<exists>k\<ge>nat i'. sees_two g path k" unfolding n
        by (intro exI [of _ k]) simp
      with ext(6) have "length ext < length path - 1 - nat i'" by simp
      then show ?thesis unfolding n length_Cons by linarith
    qed
    from c1 c2 c3 c4 c5 c6 show ?thesis by blast
  qed
qed


lemma optimize_path_long:
  assumes "3 \<le> length path"
  shows "\<exists>ext. optimize_path g path = Some (hd path # ext) \<and>
           length ext \<le> length path - 1 \<and>
           last (hd path # ext) = last path \<and>
           successively (link g path) (hd path # ext) \<and>
           ((\<forall>k. \<not> sees_two g path k) \<longrightarrow> hd path # ext = path) \<and>
           ((\<exists>k. sees_two g path k) \<longrightarrow> length ext < length path - 1)"
proof -
  have ne: "path \<noteq> []" using assms by auto
  then have h: "path ! 0 = hd path" by (simp add: hd_conv_nth)
  have "(0::int) \<le> 0" "0 < int (length path)" using ne by simp_all
  from optimize_loop_spec [OF this, of g "[hd path]"]
  obtain ext where ext: "optimize_loop g path 0 [hd path] = Some ([hd path] @ ext)"
    "length ext \<le> length path - 1"
    "last (hd path # ext) = last path"
    "successively (link g path) (hd path # ext)"
    "(\<forall>k. \<not> sees_two g path k) \<longrightarrow> ext = drop (Suc 0) path"
    "(\<exists>k. sees_two g path k) \<longrightarrow> length ext < length path - 1"
    unfolding nat_0 h by (auto simp del: last.simps)
  have g0: "py_get path 0 = Some (hd path)" using ne by (simp add: py_get_nat h)
  have "optimize_path g path = Some (hd path # ext)"
    using assms g0 ext(1,3) ne by (simp add: optimize_path_def py_get_last)
  moreover have "hd path # drop (Suc 0) path = path" using ne by (cases path) auto
  ultimately show ?thesis using ext by (intro exI [of _ ext]) auto
qed

lemma successively_link_nth:
  assumes "successively (link g P) Q" "Suc k < length Q"
  shows "can_connect_directly g (Q ! k) (Q ! Suc k) = Some True \<or>
         (\<exists>m. Suc m < length P \<and> Q ! k = P ! m \<and> Q ! Suc k = P ! Suc m)"
  using successively_nth [OF assms] by (simp add: link_def clear_line_def)

lemma optimize_path_short: "length P < 3 \<Longrightarrow> optimize_path g P = Some P"
  by (simp add: optimize_path_def)

text \<open>
  Claim C1, as amended. A path of fewer than 3 points is returned unchanged. For a path
  \<open>P\<close> of at least 3 points \<open>optimize_path\<close> returns a path that starts at \<open>P[0]\<close>,
  ends at \<open>P[-1]\<close> and has no more points than \<open>P\<close>, and each consecutive pair of it
  either passes the line-of-sight test or is a consecutive pair of \<open>P\<close>. So when every
  consecutive pair of \<open>P\<close> has clear line of sight, every consecutive pair of the result
  has.
\<close>

theorem optimize_path_guarantees:
  "(length P < 3 \<longrightarrow> optimize_path g P = Some P) \<and>
   (3 \<le> length P \<longrightarrow>
      (\<exists>Q. optimize_path g P = Some Q \<and> Q \<noteq> [] \<and> hd Q = hd P \<and> last Q = last P \<and>
           length Q \<le> length P \<and>
           (\<forall>k. Suc k < length Q \<longrightarrow>
                can_connect_directly g (Q ! k) (Q ! Suc k) = Some True \<or>
                (\<exists>m. Suc m < length P \<and> Q ! k = P ! m \<and> Q ! Suc k = P ! Suc m)) \<and>
           ((\<forall>m. Suc m < length P \<longrightarrow>
                 can_connect_directly g (P ! m) (P ! Suc m) = Some True) \<longrightarrow>
            (\<forall>k. Suc k < length Q \<longrightarrow>
                 can_connect_directly g (Q ! k) (Q ! Suc k) = Some True))))"
proof (intro conjI impI)
  assume "length P < 3"
  then show "optimize_path g P = Some P" by (rule optimize_path_short)
next
  assume len: "3 \<le> length P"
  from optimize_path_long [OF len, of g]
  obtain ext where ext: "optimize_path g P = Some (hd P # ext)"
    "length ext \<le> length P - 1" "last (hd P # ext) = last P"
    "successively (link g P) (hd P # ext)"
    by blast
  let ?Q = "hd P # ext"
  have l: "length ?Q \<le> length P" using ext(2) len unfolding length_Cons by linarith
  have pairs: "\<forall>k. Suc k < length ?Q \<longrightarrow>
      can_connect_directly g (?Q ! k) (?Q ! Suc k) = Some True \<or>
      (\<exists>m. Suc m < length P \<and> ?Q ! k = P ! m \<and> ?Q ! Suc k = P ! Suc m)"
    using successively_link_nth [OF ext(4)] by blast
  have "(\<forall>m. Suc m < length P \<longrightarrow> can_connect_directly g (P ! m) (P ! Suc m) = Some True) \<longrightarrow>
      (\<forall>k. Suc k < length ?Q \<longrightarrow> can_connect_directly g (?Q ! k) (?Q ! Suc k) = Some True)"
    using pairs by metis
  with ext(1,3) l pairs
  show "\<exists>Q. optimize_path g P = Some Q \<and> Q \<noteq> [] \<and> hd Q = hd P \<and> last Q = last P \<and>
      length Q \<le> length P \<and>
      (\<forall>k. Suc k < length Q \<longrightarrow>
           can_connect_directly g (Q ! k) (Q ! Suc k) = Some True \<or>
           (\<exists>m. Suc m < length P \<and> Q ! k = P ! m \<and> Q ! Suc k = P ! Suc m)) \<and>
      ((\<forall>m. Suc m < length P \<longrightarrow>
            can_connect_directly g (P ! m) (P ! Suc m) = Some True) \<longrightarrow>
       (\<forall>k. Suc k < length Q \<longrightarrow>
            can_connect_directly g (Q ! k) (Q ! Suc k) = Some True))"
    by (intro exI [of _ ?Q]) (simp del: last.simps)
qed

text \<open>
  On the grid \<open>grid_5x2\<close> the path \<open>(1,1), (3,1), (4,1)\<close> is returned as it is, although
  the obstacle at \<open>(2,1)\<close> lies between its first two points: the claim as stated fails.
\<close>

theorem optimize_path_keeps_blocked_pair:
  "optimize_path grid_5x2 [(1, 1), (3, 1), (4, 1)] = Some [(1, 1), (3, 1), (4, 1)] \<and>
   can_connect_directly grid_5x2 (1, 1) (3, 1) = Some False"
  by code_simp

theorem optimize_path_guarantees_witness:
  "optimize_path grid_5x2 [(0, 0), (1, 0), (2, 0), (3, 1), (4, 0)] =
     Some [(0, 0), (2, 0), (4, 0)] \<and>
   can_connect_directly grid_5x2 (0, 0) (2, 0) = Some True \<and>
   can_connect_directly grid_5x2 (2, 0) (4, 0) = Some True"
proof -
  let ?P = "[(0, 0), (1, 0), (2, 0), (3, 1), (4, 0)] :: point list"
  let ?Q = "[(0, 0), (2, 0), (4, 0)] :: point list"
  have ev: "optimize_path grid_5x2 ?P = Some ?Q" by code_simp
  have adj: "can_connect_directly grid_5x2 (0, 0) (1, 0) = Some True"
    "can_connect_directly grid_5x2 (1, 0) (2, 0) = Some True"
    "can_connect_directly grid_5x2 (2, 0) (3, 1) = Some True"
    "can_connect_directly grid_5x2 (3, 1) (4, 0) = Some True"
    by code_simp+
  have hyp: "\<forall>m. Suc m < length ?P \<longrightarrow> can_connect_directly grid_5x2 (?P ! m) (?P ! Suc m) = Some True"
  proof (intro allI impI)
    fix m assume "Suc m < length ?P"
    then have "m = 0 \<or> m = 1 \<or> m = 2 \<or> m = 3" by auto
    then show "can_connect_directly grid_5x2 (?P ! m) (?P ! Suc m) = Some True"
      using adj by auto
  qed
  have "3 \<le> length ?P" by simp
  with optimize_path_guarantees [of ?P grid_5x2] hyp ev
  have all: "\<forall>k. Suc k < length ?Q \<longrightarrow>
      can_connect_directly grid_5x2 (?Q ! k) (?Q ! Suc k) = Some True"
    by auto
  from all [rule_format, of 0] all [rule_format, of 1] ev show ?thesis by simp
qed

lemma optimize_path_total: "\<exists>Q. optimize_path g P = Some Q"
proof (cases "length P < 3")
  case True
  then show ?thesis by (simp add: optimize_path_short)
next
  case False
  then have "3 \<le> length P" by simp
  from optimize_path_long [OF this, of g] show ?thesis by blast
qed

lemma optimize_path_again:
  "\<exists>R. optimize_path g Q = Some R \<and>
        (R = Q \<longleftrightarrow> length Q < 3 \<or> (\<forall>k. \<not> sees_two g Q k)) \<and>
        (R \<noteq> Q \<longrightarrow> length R < length Q)"
proof (cases "length Q < 3")
  case True
  then show ?thesis by (simp add: optimize_path_short)
next
  case False
  then have len: "3 \<le> length Q" by simp
  from optimize_path_long [OF len, of g]
  obtain ext where ext: "optimize_path g Q = Some (hd Q # ext)"
    "(\<forall>k. \<not> sees_two g Q k) \<longrightarrow> hd Q # ext = Q"
    "(\<exists>k. sees_two g Q k) \<longrightarrow> length ext < length Q - 1"
    by blast
  have short: "length (hd Q # ext) < length Q" if "\<exists>k. sees_two g Q k"
  proof -
    from ext(3) that have "length ext < length Q - 1" by blast
    then show ?thesis unfolding length_Cons by linarith
  qed
  then have "hd Q # ext = Q \<longleftrightarrow> (\<forall>k. \<not> sees_two g Q k)"
    using ext(2) by (metis less_irrefl)
  moreover have "hd Q # ext \<noteq> Q \<longrightarrow> length (hd Q # ext) < length Q"
    using short ext(2) by blast
  ultimately show ?thesis using ext(1) False by blast
qed

text \<open>
  Claim C9, as amended. \<open>optimize_path\<close> always returns a path \<open>Q\<close>, and a second pass
  over \<open>Q\<close> returns \<open>Q\<close> again exactly when \<open>Q\<close> has fewer than 3 points or no point of
  \<open>Q\<close> has clear line of sight both to the next point and to the one after it; in every
  other case the second pass returns a strictly shorter path. (The look-ahead from a
  point stops at the first point it cannot see, so a point farther along that it could
  see again is only found by a later pass.)
\<close>

theorem optimize_path_second_pass:
  "\<exists>Q R. optimize_path g P = Some Q \<and> optimize_path g Q = Some R \<and>
     (optimize_path g P \<bind> optimize_path g = optimize_path g P \<longleftrightarrow>
        length Q < 3 \<or>
        (\<forall>k. k + 2 < length Q \<longrightarrow>
             \<not> (can_connect_directly g (Q ! k) (Q ! (k + 1)) = Some True \<and>
                can_connect_directly g (Q ! k) (Q ! (k + 2)) = Some True))) \<and>
     (R \<noteq> Q \<longrightarrow> length R < length Q)"
proof -
  from optimize_path_total obtain Q where Q: "optimize_path g P = Some Q" by blast
  from optimize_path_again [of g Q] obtain R where R: "optimize_path g Q = Some R"
    "R = Q \<longleftrightarrow> length Q < 3 \<or> (\<forall>k. \<not> sees_two g Q k)"
    "R \<noteq> Q \<longrightarrow> length R < length Q"
    by blast
  have "(\<forall>k. \<not> sees_two g Q k) \<longleftrightarrow>
      (\<forall>k. k + 2 < length Q \<longrightarrow>
           \<not> (can_connect_directly g (Q ! k) (Q ! (k + 1)) = Some True \<and>
              can_connect_directly g (Q ! k) (Q ! (k + 2)) = Some True))"
    by (auto simp: sees_two_def clear_line_def)
  with Q R show ?thesis by (intro exI [of _ Q] exI [of _ R]) auto
qed

text \<open>
  On \<open>grid_5x2\<close> the first pass over \<open>(0,0), (1,0), (2,0), (3,1), (4,0)\<close> gives
  \<open>(0,0), (2,0), (4,0)\<close>, because \<open>(0,0)\<close> cannot see \<open>(3,1)\<close>; the second pass gives
  \<open>(0,0), (4,0)\<close>.
\<close>

theorem optimize_path_not_idempotent:
  "optimize_path grid_5x2 [(0, 0), (1, 0), (2, 0), (3, 1), (4, 0)] = Some [(0, 0), (2, 0), (4, 0)] \<and>
   optimize_path grid_5x2 [(0, 0), (2, 0), (4, 0)] = Some [(0, 0), (4, 0)] \<and>
   optimize_path grid_5x2 [(0, 0), (1, 0), (2, 0), (3, 1), (4, 0)] \<bind> optimize_path grid_5x2
     \<noteq> optimize_path grid_5x2 [(0, 0), (1, 0), (2, 0), (3, 1), (4, 0)]"
  by code_simp

theorem optimize_path_second_pass_witness:
  "optimize_path grid_5x2 [(1, 1), (3, 1), (4, 1)] = Some [(1, 1), (3, 1), (4, 1)] \<and>
   can_connect_directly grid_5x2 (1, 1) (3, 1) = Some False \<and>
   optimize_path grid_5x2 [(1, 1), (3, 1), (4, 1)] \<bind> optimize_path grid_5x2
     = optimize_path grid_5x2 [(1, 1), (3, 1), (4, 1)]"
proof -
  let ?P = "[(1, 1), (3, 1), (4, 1)] :: point list"
  have ev: "optimize_path grid_5x2 ?P = Some ?P" by code_simp
  have blk: "can_connect_directly grid_5x2 (1, 1) (3, 1) = Some False" by code_simp
  have "\<forall>k. k + 2 < length ?P \<longrightarrow>
      \<not> (can_connect_directly grid_5x2 (?P ! k) (?P ! (k + 1)) = Some True \<and>
         can_connect_directly grid_5x2 (?P ! k) (?P ! (k + 2)) = Some True)"
  proof (intro allI impI)
    fix k assume "k + 2 < length ?P"
    then have "k = 0" by simp
    then show "\<not> (can_connect_directly grid_5x2 (?P ! k) (?P ! (k + 1)) = Some True \<and>
         can_connect_directly grid_5x2 (?P ! k) (?P ! (k + 2)) = Some True)"
      using blk by simp
  qed
  with optimize_path_second_pass [of grid_5x2 ?P] ev
  have "optimize_path grid_5x2 ?P \<bind> optimize_path grid_5x2 = optimize_path grid_5x2 ?P"
    by auto
  with ev blk show ?thesis by simp
qed

section \<open>General search: neighbours and costs\<close>

lemma free_at_eq: "free_at g x y = Some (free_cell g (x, y))"
  by (auto simp: free_at_def np_get_def free_cell_def Let_def)

lemma neighbors_loop_eq:
  "neighbors_loop g x y ds acc =
     Some (acc @ filter (free_cell g) (map (\<lambda>(dx, dy). (x + dx, y + dy)) ds))"
  by (induction ds arbitrary: acc) (auto simp: free_at_eq)

lemma get_neighbors_eq: "get_neighbors g p = Some (nbrs g p)"
  by (cases p) (simp add: get_neighbors_def nbrs_def neighbors_loop_eq)

lemma set_directions:
  "set directions = {(dx, dy). \<bar>dx\<bar> \<le> 1 \<and> \<bar>dy\<bar> \<le> 1 \<and> (dx, dy) \<noteq> (0, 0)}"
proof -
  have "\<bar>dx\<bar> \<le> 1 \<longleftrightarrow> dx = - 1 \<or> dx = 0 \<or> dx = 1" for dx :: int by auto
  then show ?thesis by (auto simp: directions_def)
qed

lemma in_nbrs_iff: "b \<in> set (nbrs g a) \<longleftrightarrow> king_move a b \<and> free_cell g b"
proof -
  obtain ax ay bx "by" where ab: "a = (ax, ay)" "b = (bx, by)" by (cases a, cases b) auto
  have "b \<in> (\<lambda>(dx, dy). (fst a + dx, snd a + dy)) ` set directions \<longleftrightarrow> king_move a b"
  proof
    assume "b \<in> (\<lambda>(dx, dy). (fst a + dx, snd a + dy)) ` set directions"
    then show "king_move a b"
      unfolding set_directions ab king_move_def by auto
  next
    assume k: "king_move a b"
    then have "(bx - ax, by - ay) \<in> set directions"
      unfolding set_directions ab king_move_def by auto
    then have "(\<lambda>(dx, dy). (fst a + dx, snd a + dy)) (bx - ax, by - ay)
        \<in> (\<lambda>(dx, dy). (fst a + dx, snd a + dy)) ` set directions"
      by (rule imageI)
    then show "b \<in> (\<lambda>(dx, dy). (fst a + dx, snd a + dy)) ` set directions"
      by (simp add: ab)
  qed
  then show ?thesis by (auto simp: nbrs_def)
qed

lemma move_cost_king:
  "king_move a b \<Longrightarrow>
     move_cost a b = (if fst b \<noteq> fst a \<and> snd b \<noteq> snd a then 1.4 else 1.0)"
  by (auto simp: king_move_def move_cost_def Let_def max_def split: if_splits)





section \<open>General search: the invariant of the loop\<close>

lemma finite_universe: "finite (universe g start)"
proof -
  have "{p. free_cell g p} \<subseteq> {0 ..< int (width g)} \<times> {0 ..< int (height g)}"
    by (auto simp: free_cell_def)
  then have "finite {p. free_cell g p}" by (rule finite_subset) simp
  then show ?thesis by (simp add: universe_def)
qed

lemma king_move_cost:
  assumes "king_move a b"
  shows "move_cost a b = 1 \<or> move_cost a b = 7 / 5"
  using move_cost_king [OF assms] by (auto split: if_splits)

lemma unseen_less:
  assumes "n \<in> universe g start" "g_score st n = None" "g_score st' = (g_score st)(n \<mapsto> t)"
  shows "unseen g start st' < unseen g start st"
proof -
  have "{m \<in> universe g start. g_score st' m = None} \<subset> {m \<in> universe g start. g_score st m = None}"
    using assms by (auto split: if_splits)
  moreover have "finite {m \<in> universe g start. g_score st m = None}"
    using finite_universe by simp
  ultimately show ?thesis unfolding unseen_def by (rule psubset_card_mono [rotated])
qed

lemma unseen_same:
  assumes "g_score st n = Some v" "g_score st' = (g_score st)(n \<mapsto> t)"
  shows "unseen g start st' = unseen g start st"
proof -
  have "{m \<in> universe g start. g_score st' m = None} = {m \<in> universe g start. g_score st m = None}"
    using assms by (auto split: if_splits)
  then show ?thesis by (simp add: unseen_def)
qed

lemma weight_less:
  assumes "n \<in> universe g start" "g_score st n = Some (real k / 5)"
    "g_score st' = (g_score st)(n \<mapsto> real k' / 5)" "k' < k"
  shows "weight g start st' < weight g start st"
  unfolding weight_def
proof (rule sum_strict_mono_ex1 [OF finite_universe])
  show "\<forall>x\<in>universe g start.
       (case g_score st' x of None \<Rightarrow> 0 | Some v \<Rightarrow> nat \<lfloor>5 * v\<rfloor>)
       \<le> (case g_score st x of None \<Rightarrow> 0 | Some v \<Rightarrow> nat \<lfloor>5 * v\<rfloor>)"
    using assms by (auto split: option.splits)
  show "\<exists>a\<in>universe g start.
       (case g_score st' a of None \<Rightarrow> 0 | Some v \<Rightarrow> nat \<lfloor>5 * v\<rfloor>)
       < (case g_score st a of None \<Rightarrow> 0 | Some v \<Rightarrow> nat \<lfloor>5 * v\<rfloor>)"
    using assms by (intro bexI [of _ n]) auto
qed


lemma astar_invD:
  assumes "astar_inv g start st"
  shows "g_score st start = Some 0"
    and "n \<in> dom (g_score st) \<Longrightarrow> n = start \<or> free_cell g n"
    and "e \<in> set (open_set st) \<Longrightarrow> snd e \<in> dom (g_score st)"
    and "g_score st n = Some v \<Longrightarrow> \<exists>k::nat. v = real k / 5"
    and "dom (came_from st) = dom (g_score st) - {start}"
    and "came_from st n = Some p \<Longrightarrow>
           \<exists>gp gn. g_score st p = Some gp \<and> g_score st n = Some gn \<and> gp < gn"
proof -
  note u1 = assms [unfolded astar_inv_def]
  note a = u1 [THEN conjunct1] and u2 = u1 [THEN conjunct2]
  note b = u2 [THEN conjunct1] and u3 = u2 [THEN conjunct2]
  note c = u3 [THEN conjunct1] and u4 = u3 [THEN conjunct2]
  note d = u4 [THEN conjunct1] and u5 = u4 [THEN conjunct2]
  note e = u5 [THEN conjunct1] and f = u5 [THEN conjunct2]
  show "g_score st start = Some 0" by (rule a)
  show "n \<in> dom (g_score st) \<Longrightarrow> n = start \<or> free_cell g n" using b by blast
  show "e \<in> set (open_set st) \<Longrightarrow> snd e \<in> dom (g_score st)" using c by blast
  show "g_score st n = Some v \<Longrightarrow> \<exists>k::nat. v = real k / 5" using d by blast
  show "dom (came_from st) = dom (g_score st) - {start}" by (rule e)
  show "came_from st n = Some p \<Longrightarrow>
      \<exists>gp gn. g_score st p = Some gp \<and> g_score st n = Some gn \<and> gp < gn"
    using f by blast
qed

lemma astar_invI:
  assumes "g_score st start = Some 0"
    and "\<And>n. n \<in> dom (g_score st) \<Longrightarrow> n = start \<or> free_cell g n"
    and "\<And>e. e \<in> set (open_set st) \<Longrightarrow> snd e \<in> dom (g_score st)"
    and "\<And>n v. g_score st n = Some v \<Longrightarrow> \<exists>k::nat. v = real k / 5"
    and "dom (came_from st) = dom (g_score st) - {start}"
    and "\<And>n p. came_from st n = Some p \<Longrightarrow>
           \<exists>gp gn. g_score st p = Some gp \<and> g_score st n = Some gn \<and> gp < gn"
  shows "astar_inv g start st"
  unfolding astar_inv_def
proof (intro conjI allI impI)
  show "g_score st start = Some 0" by (rule assms(1))
  show "n = start \<or> free_cell g n" if "n \<in> dom (g_score st)" for n
    using that by (rule assms(2))
  show "snd e \<in> dom (g_score st)" if "e \<in> set (open_set st)" for e
    using that by (rule assms(3))
  show "\<exists>k::nat. v = real k / 5" if "g_score st n = Some v" for n v
    using that by (rule assms(4))
  show "dom (came_from st) = dom (g_score st) - {start}" by (rule assms(5))
  show "\<exists>gp gn. g_score st p = Some gp \<and> g_score st n = Some gn \<and> gp < gn"
    if "came_from st n = Some p" for n p
    using that by (rule assms(6))
qed

lemma king_move_neq: "king_move a b \<Longrightarrow> a \<noteq> b"
  by (auto simp: king_move_def)

lemma relax_step:
  assumes inv: "astar_inv g start st" and cur: "g_score st cur = Some gc"
    and nb: "n \<in> set (nbrs g cur)"
  shows "\<exists>st'. relax goal cur st n = Some st' \<and> astar_inv g start st' \<and>
           dom (g_score st') = insert n (dom (g_score st)) \<and>
           set (open_set st) \<subseteq> set (open_set st') \<and>
           (n \<in> dom (g_score st) \<or> n \<in> snd ` set (open_set st')) \<and>
           (st' = st \<or> lighter g start st' st)"
proof -
  from nb have km: "king_move cur n" and fr: "free_cell g n" by (simp_all add: in_nbrs_iff)
  from km have ne: "n \<noteq> cur" using king_move_neq by blast
  from astar_invD(4) [OF inv cur] obtain k :: nat where k: "gc = real k / 5" by blast
  let ?t = "gc + move_cost cur n"
  have "\<exists>j::nat. ?t = real j / 5 \<and> k < j"
    using king_move_cost [OF km]
  proof
    assume c: "move_cost cur n = 1"
    have "gc + 1 = real (k + 5) / 5" by (simp add: k)
    with c show ?thesis by (intro exI [of _ "k + 5"]) simp
  next
    assume c: "move_cost cur n = 7 / 5"
    have "gc + 7 / 5 = real (k + 7) / 5" by (simp add: k add_divide_distrib)
    with c show ?thesis by (intro exI [of _ "k + 7"]) simp
  qed
  then obtain k' :: nat where k': "?t = real k' / 5" "k < k'" by blast
  have tpos: "0 < ?t" using k' by simp
  have gct: "gc < ?t" using k k' by (simp add: divide_strict_right_mono)
  let ?fires = "case g_score st n of None \<Rightarrow> True | Some gn \<Rightarrow> ?t < gn"
  show ?thesis
  proof (cases ?fires)
    case False
    then have "relax goal cur st n = Some st" "n \<in> dom (g_score st)"
      using cur by (auto simp: relax_def Let_def split: option.splits)
    with inv show ?thesis by (intro exI [of _ st]) (simp add: insert_absorb)
  next
    case True
    let ?f = "?t + real_of_int (heuristic n goal)"
    let ?st = "st\<lparr>came_from := (came_from st)(n \<mapsto> cur),
                  g_score := (g_score st)(n \<mapsto> ?t),
                  f_score := (f_score st)(n \<mapsto> ?f),
                  open_set := heappush (open_set st) (?f, n)\<rparr>"
    have r: "relax goal cur st n = Some ?st"
      using cur True by (simp add: relax_def Let_def)
    have s0: "g_score st start = Some 0" by (rule astar_invD(1) [OF inv])
    have ns: "n \<noteq> start"
    proof
      assume "n = start"
      with True s0 have "?t < 0" by simp
      with tpos show False by simp
    qed
    have i1: "g_score ?st start = Some 0" using s0 ns by simp
    have i2: "m = start \<or> free_cell g m" if "m \<in> dom (g_score ?st)" for m
      using astar_invD(2) [OF inv, of m] fr that by (cases "m = n") auto
    have i3: "snd e \<in> dom (g_score ?st)" if "e \<in> set (open_set ?st)" for e
      using astar_invD(3) [OF inv, of e] that by (auto simp: heappush_def)
    have i4: "\<exists>j::nat. v = real j / 5" if "g_score ?st m = Some v" for m v
      using astar_invD(4) [OF inv, of m v] k'(1) that by (cases "m = n") auto
    have i5: "dom (came_from ?st) = dom (g_score ?st) - {start}"
      using astar_invD(5) [OF inv] ns by auto
    have i6: "\<exists>gp gn. g_score ?st p = Some gp \<and> g_score ?st m = Some gn \<and> gp < gn"
      if a: "came_from ?st m = Some p" for m p
    proof -
      show "\<exists>gp gn. g_score ?st p = Some gp \<and> g_score ?st m = Some gn \<and> gp < gn"
      proof (cases "m = n")
        case True
        with a have "p = cur" by simp
        with True ne cur gct show ?thesis by simp
      next
        case mn: False
        with a have "came_from st m = Some p" by simp
        from astar_invD(6) [OF inv this]
        obtain gp gn where g: "g_score st p = Some gp" "g_score st m = Some gn" "gp < gn"
          by blast
        show ?thesis
        proof (cases "p = n")
          case True
          with g(1) \<open>?fires\<close> have "?t < gp" by simp
          with g mn True show ?thesis by simp
        next
          case False
          with g mn show ?thesis by simp
        qed
      qed
    qed
    have inv': "astar_inv g start ?st"
      using i1 i2 i3 i4 i5 i6 by (rule astar_invI)
    have d: "dom (g_score ?st) = insert n (dom (g_score st))" by simp
    have o: "set (open_set st) \<subseteq> set (open_set ?st)" by (auto simp: heappush_def)
    have p: "n \<in> snd ` set (open_set ?st)" by (force simp: heappush_def)
    have u: "n \<in> universe g start" using fr by (simp add: universe_def)
    have l: "lighter g start ?st st"
    proof (cases "g_score st n")
      case None
      then have "unseen g start ?st < unseen g start st"
        by (intro unseen_less [OF u, of _ _ ?t]) simp_all
      then show ?thesis by (simp add: lighter_def)
    next
      case (Some gn)
      from astar_invD(4) [OF inv Some] obtain kn :: nat where kn: "gn = real kn / 5" by blast
      from Some \<open>?fires\<close> have "?t < gn" by simp
      with k'(1) kn have lt: "k' < kn" by (simp add: divide_less_cancel)
      have "g_score st n = Some (real kn / 5)" using Some kn by simp
      moreover have "g_score ?st = (g_score st)(n \<mapsto> real k' / 5)" by (simp add: k'(1))
      ultimately have "weight g start ?st < weight g start st"
        using lt by (intro weight_less [OF u]) 
      moreover have "unseen g start ?st = unseen g start st"
        by (intro unseen_same [OF Some, of _ ?t]) simp
      ultimately show ?thesis by (simp add: lighter_def)
    qed
    show ?thesis
    proof (intro exI [of _ ?st] conjI)
      show "relax goal cur st n = Some ?st" by (rule r)
      show "astar_inv g start ?st" by (rule inv')
      show "dom (g_score ?st) = insert n (dom (g_score st))" by (rule d)
      show "set (open_set st) \<subseteq> set (open_set ?st)" by (rule o)
      show "n \<in> dom (g_score st) \<or> n \<in> snd ` set (open_set ?st)" using p by (rule disjI2)
      show "?st = st \<or> lighter g start ?st st" using l by (rule disjI2)
    qed
  qed
qed

lemma lighter_trans: "lighter g start c b \<Longrightarrow> lighter g start b a \<Longrightarrow> lighter g start c a"
  unfolding lighter_def by linarith

lemma relax_all_step:
  assumes "astar_inv g start st" "cur \<in> dom (g_score st)" "set ns \<subseteq> set (nbrs g cur)"
  shows "\<exists>st'. relax_all goal cur st ns = Some st' \<and> astar_inv g start st' \<and>
           dom (g_score st') = dom (g_score st) \<union> set ns \<and>
           set (open_set st) \<subseteq> set (open_set st') \<and>
           (\<forall>n. n \<in> set ns \<longrightarrow> n \<in> dom (g_score st) \<or> n \<in> snd ` set (open_set st')) \<and>
           (st' = st \<or> lighter g start st' st)"
  using assms
proof (induction ns arbitrary: st)
  case Nil
  then show ?case by simp
next
  case (Cons n ns)
  from Cons.prems(2) obtain gc where gc: "g_score st cur = Some gc" by blast
  from Cons.prems(3) have nb: "n \<in> set (nbrs g cur)" and ns: "set ns \<subseteq> set (nbrs g cur)"
    by simp_all
  from relax_step [OF Cons.prems(1) gc nb, of goal]
  obtain st1 where st1: "relax goal cur st n = Some st1" "astar_inv g start st1"
    "dom (g_score st1) = insert n (dom (g_score st))"
    "set (open_set st) \<subseteq> set (open_set st1)"
    "n \<in> dom (g_score st) \<or> n \<in> snd ` set (open_set st1)"
    "st1 = st \<or> lighter g start st1 st"
    by blast
  have c1: "cur \<in> dom (g_score st1)" using st1(3) Cons.prems(2) by blast
  from Cons.IH [OF st1(2) c1 ns]
  obtain st2 where st2: "relax_all goal cur st1 ns = Some st2" "astar_inv g start st2"
    "dom (g_score st2) = dom (g_score st1) \<union> set ns"
    "set (open_set st1) \<subseteq> set (open_set st2)"
    "\<forall>m. m \<in> set ns \<longrightarrow> m \<in> dom (g_score st1) \<or> m \<in> snd ` set (open_set st2)"
    "st2 = st1 \<or> lighter g start st2 st1"
    by blast
  have e1: "relax_all goal cur st (n # ns) = Some st2" using st1(1) st2(1) by simp
  have e3: "dom (g_score st2) = dom (g_score st) \<union> set (n # ns)"
    using st1(3) st2(3) by auto
  have e4: "set (open_set st) \<subseteq> set (open_set st2)" using st1(4) st2(4) by blast
  have e5: "m \<in> dom (g_score st) \<or> m \<in> snd ` set (open_set st2)" if "m \<in> set (n # ns)" for m
  proof (cases "m \<in> dom (g_score st)")
    case True then show ?thesis by simp
  next
    case False
    show ?thesis
    proof (cases "m = n")
      case True
      with False st1(5) have "n \<in> snd ` set (open_set st1)" by simp
      with st2(4) True show ?thesis by blast
    next
      case mn: False
      with that have "m \<in> set ns" by simp
      with st2(5) have "m \<in> dom (g_score st1) \<or> m \<in> snd ` set (open_set st2)" by blast
      with st1(3) mn False show ?thesis by simp
    qed
  qed
  have e6: "st2 = st \<or> lighter g start st2 st"
    using st1(6) st2(6) lighter_trans [of g start st2 st1 st] by blast
  show ?case
  proof (intro exI [of _ st2] conjI allI impI)
    show "relax_all goal cur st (n # ns) = Some st2" by (rule e1)
    show "astar_inv g start st2" by (rule st2(2))
    show "dom (g_score st2) = dom (g_score st) \<union> set (n # ns)" by (rule e3)
    show "set (open_set st) \<subseteq> set (open_set st2)" by (rule e4)
    show "m \<in> dom (g_score st) \<or> m \<in> snd ` set (open_set st2)" if "m \<in> set (n # ns)" for m
      using that by (rule e5)
    show "st2 = st \<or> lighter g start st2 st" by (rule e6)
  qed
qed

lemma heappop_spec:
  assumes "os \<noteq> []"
  shows "\<exists>e rest. heappop os = Some (e, rest) \<and> e \<in> set os \<and> (\<forall>x. x \<in> set os \<longrightarrow> e \<le> x) \<and>
           mset rest = mset os - {#e#} \<and> set os = insert e (set rest) \<and>
           length rest < length os"
proof -
  let ?e = "Min (set os)"
  have in_os: "?e \<in> set os" using assms by (intro Min_in) simp_all
  have le: "?e \<le> x" if "x \<in> set os" for x using that by (intro Min_le) simp_all
  have m: "mset (remove1 ?e os) = mset os - {#?e#}" by simp
  have s: "set os = insert ?e (set (remove1 ?e os))"
  proof (intro set_eqI iffI)
    fix x assume "x \<in> set os"
    then show "x \<in> insert ?e (set (remove1 ?e os))"
      by (cases "x = ?e") (simp_all add: in_set_remove1)
  next
    fix x assume "x \<in> insert ?e (set (remove1 ?e os))"
    then show "x \<in> set os" using in_os set_remove1_subset [of ?e os] by auto
  qed
  have l: "length (remove1 ?e os) < length os"
    using in_os assms by (simp add: length_remove1)
  show ?thesis
    using assms in_os le m s l
    by (intro exI [of _ ?e] exI [of _ "remove1 ?e os"]) (simp add: heappop_def Let_def)
qed


lemma reconstruct_total:
  assumes inv: "astar_inv g start st" and v: "g_score st cur = Some (real k / 5)"
  shows "\<exists>chain. reconstruct (came_from st) cur path = Some (path @ chain) \<and>
           set chain \<subseteq> dom (came_from st) \<and>
           (chain = [] \<longleftrightarrow> came_from st cur = None) \<and>
           (chain \<noteq> [] \<longrightarrow> hd chain = cur)"
  using v
proof (induction k arbitrary: cur path rule: less_induct)
  case (less k)
  show ?case
  proof (cases "came_from st cur")
    case None
    then have "reconstruct (came_from st) cur path = Some path"
      by (subst reconstruct.simps) simp
    with None show ?thesis by (intro exI [of _ "[]"]) simp
  next
    case (Some p)
    from astar_invD(6) [OF inv Some] less.prems
    obtain gp where gp: "g_score st p = Some gp" "gp < real k / 5" by auto
    from astar_invD(4) [OF inv gp(1)] obtain j :: nat where j: "gp = real j / 5" by blast
    with gp(2) have jk: "j < k" by (simp add: divide_less_cancel)
    from less.IH [OF jk, of p "path @ [cur]"] gp(1) j
    obtain chain where ch: "reconstruct (came_from st) p (path @ [cur]) = Some ((path @ [cur]) @ chain)"
      "set chain \<subseteq> dom (came_from st)"
      by auto
    have "reconstruct (came_from st) cur path = Some (path @ (cur # chain))"
      using Some ch(1) by (subst reconstruct.simps) simp
    moreover have "set (cur # chain) \<subseteq> dom (came_from st)" using ch(2) Some by auto
    ultimately show ?thesis using Some by (intro exI [of _ "cur # chain"]) simp
  qed
qed

lemma a_star_loop_unfold:
  assumes "heappop (open_set st) = Some (e, rest)" "open_set st \<noteq> []"
  shows "a_star_loop g start goal st =
     (if snd e = goal
      then do { path \<leftarrow> reconstruct (came_from st) goal []; Some (rev (path @ [start])) }
      else do { st2 \<leftarrow> relax_all goal (snd e) (st\<lparr>open_set := rest\<rparr>) (nbrs g (snd e));
                a_star_loop g start goal st2 })"
  using assms by (subst a_star_loop.simps) (simp add: Let_def get_neighbors_eq)

lemma a_star_loop_empty: "open_set st = [] \<Longrightarrow> a_star_loop g start goal st = Some []"
  by (subst a_star_loop.simps) simp

lemma same_frontier_refl: "same_frontier st st"
  by (simp add: same_frontier_def)

lemma same_frontier_pop:
  assumes "same_frontier st st'" "heappop (open_set st) = Some (e, rest)" "open_set st \<noteq> []"
  shows "\<exists>rest'. heappop (open_set st') = Some (e, rest') \<and> open_set st' \<noteq> [] \<and>
           same_frontier (st\<lparr>open_set := rest\<rparr>) (st'\<lparr>open_set := rest'\<rparr>)"
proof -
  from assms(1) have m: "mset (open_set st) = mset (open_set st')"
    by (simp add: same_frontier_def)
  then have s: "set (open_set st) = set (open_set st')" by (rule mset_eq_setD)
  from assms(3) m have ne: "open_set st' \<noteq> []" by auto
  from assms(2,3) have e: "e = Min (set (open_set st))" "rest = remove1 e (open_set st)"
    by (auto simp: heappop_def Let_def)
  have "heappop (open_set st') = Some (e, remove1 e (open_set st'))"
    using ne e(1) s by (simp add: heappop_def Let_def)
  moreover have "mset rest = mset (remove1 e (open_set st'))"
    using m e(2) by simp
  ultimately show ?thesis using ne assms(1)
    by (intro exI [of _ "remove1 e (open_set st')"]) (simp add: same_frontier_def)
qed

lemma same_frontier_relax:
  assumes "same_frontier st st'" "relax goal cur st n = Some st1"
  shows "\<exists>st1'. relax goal cur st' n = Some st1' \<and> same_frontier st1 st1'"
proof -
  from assms(1) have eq: "g_score st' = g_score st" "came_from st' = came_from st"
    "f_score st' = f_score st" "mset (open_set st') = mset (open_set st)"
    by (simp_all add: same_frontier_def)
  from assms(2) obtain gc where gc: "g_score st cur = Some gc"
    by (cases "g_score st cur") (simp_all add: relax_def)
  show ?thesis
    using assms(2) gc eq
    by (auto simp: relax_def Let_def same_frontier_def heappush_def split: if_splits)
qed

lemma same_frontier_relax_all:
  assumes "same_frontier st st'" "relax_all goal cur st ns = Some st2"
  shows "\<exists>st2'. relax_all goal cur st' ns = Some st2' \<and> same_frontier st2 st2'"
  using assms
proof (induction ns arbitrary: st st')
  case Nil
  then show ?case by simp
next
  case (Cons n ns)
  from Cons.prems(2) obtain st1 where st1: "relax goal cur st n = Some st1"
    "relax_all goal cur st1 ns = Some st2"
    by (cases "relax goal cur st n") simp_all
  from same_frontier_relax [OF Cons.prems(1) st1(1)]
  obtain st1' where st1': "relax goal cur st' n = Some st1'" "same_frontier st1 st1'" by blast
  from Cons.IH [OF st1'(2) st1(2)] st1'(1) show ?case by simp
qed

lemma closed_contains_reachable:
  assumes "start \<in> D" "\<And>n. n \<in> D \<Longrightarrow> set (nbrs g n) \<subseteq> D" "reachable g start x"
  shows "x \<in> D"
  using assms(3) unfolding reachable_def
proof (induction rule: rtranclp_induct)
  case base
  show ?case by (rule assms(1))
next
  case (step y z)
  from step.hyps(2) have "z \<in> set (nbrs g y)" by (simp add: in_nbrs_iff)
  with assms(2) [OF step.IH] show ?case by blast
qed

lemma exhausted_unreachable:
  assumes "astar_inv g start st" "frontier_closed g goal st {}" "open_set st = []"
  shows "\<not> reachable g start goal"
proof
  assume r: "reachable g start goal"
  have cl: "n \<noteq> goal \<and> set (nbrs g n) \<subseteq> dom (g_score st)" if "n \<in> dom (g_score st)" for n
    using assms(2) [unfolded frontier_closed_def, rule_format, OF that] assms(3) by simp
  have "goal \<in> dom (g_score st)"
  proof (rule closed_contains_reachable [OF _ _ r])
    show "start \<in> dom (g_score st)" using astar_invD(1) [OF assms(1)] by blast
    show "set (nbrs g n) \<subseteq> dom (g_score st)" if "n \<in> dom (g_score st)" for n
      using cl [OF that] by simp
  qed
  with cl show False by blast
qed

lemma goal_branch:
  assumes inv: "astar_inv g start st" and e: "e \<in> set (open_set st)" "snd e = goal"
  shows "\<exists>r. do { path \<leftarrow> reconstruct (came_from st) goal []; Some (rev (path @ [start])) }
              = Some r \<and>
           r \<noteq> [] \<and> hd r = start \<and> last r = goal \<and> (\<forall>p. p \<in> set (tl r) \<longrightarrow> free_cell g p)"
proof -
  from astar_invD(3) [OF inv e(1)] e(2) obtain v where v: "g_score st goal = Some v" by blast
  from astar_invD(4) [OF inv v] obtain k :: nat where k: "v = real k / 5" by blast
  from reconstruct_total [OF inv, of goal k "[]"] v k
  obtain chain where ch: "reconstruct (came_from st) goal [] = Some chain"
    "set chain \<subseteq> dom (came_from st)"
    "chain = [] \<longleftrightarrow> came_from st goal = None"
    "chain \<noteq> [] \<longrightarrow> hd chain = goal"
    by auto
  let ?r = "rev (chain @ [start])"
  have dcf: "dom (came_from st) = dom (g_score st) - {start}" by (rule astar_invD(5) [OF inv])
  have l: "last ?r = goal"
  proof (cases "chain = []")
    case True
    with ch(3) have "goal \<notin> dom (came_from st)" by (simp add: domIff)
    with dcf v have "goal = start" by blast
    with True show ?thesis by simp
  next
    case False
    with ch(4) show ?thesis by (simp add: last_rev)
  qed
  have f: "free_cell g p" if "p \<in> set (tl ?r)" for p
  proof -
    from that have "p \<in> set chain" by simp
    with ch(2) dcf have "p \<in> dom (g_score st)" "p \<noteq> start" by auto
    with astar_invD(2) [OF inv, of p] show ?thesis by blast
  qed
  show ?thesis
    using ch(1) l f by (intro exI [of _ ?r]) simp
qed

lemma expand_branch:
  assumes inv: "astar_inv g start st" and cl: "frontier_closed g goal st {}"
    and pop: "heappop (open_set st) = Some (e, rest)" and ne: "open_set st \<noteq> []"
    and ng: "snd e \<noteq> goal"
  shows "\<exists>st2. relax_all goal (snd e) (st\<lparr>open_set := rest\<rparr>) (nbrs g (snd e)) = Some st2 \<and>
           astar_inv g start st2 \<and> frontier_closed g goal st2 {} \<and>
           (st2, st) \<in> astar_measure g start"
proof -
  let ?cur = "snd e" and ?st1 = "st\<lparr>open_set := rest\<rparr>"
  from heappop_spec [OF ne] pop
  have e: "e \<in> set (open_set st)" and sr: "set (open_set st) = insert e (set rest)"
    and lr: "length rest < length (open_set st)"
    by auto
  have sub: "set rest \<subseteq> set (open_set st)" using sr by blast
  have inv1: "astar_inv g start ?st1"
  proof (rule astar_invI)
    show "g_score ?st1 start = Some 0" using astar_invD(1) [OF inv] by simp
    show "n = start \<or> free_cell g n" if "n \<in> dom (g_score ?st1)" for n
      using astar_invD(2) [OF inv, of n] that by simp
    show "snd x \<in> dom (g_score ?st1)" if "x \<in> set (open_set ?st1)" for x
      using astar_invD(3) [OF inv, of x] that sub by auto
    show "\<exists>k::nat. v = real k / 5" if "g_score ?st1 n = Some v" for n v
      using astar_invD(4) [OF inv, of n v] that by simp
    show "dom (came_from ?st1) = dom (g_score ?st1) - {start}"
      using astar_invD(5) [OF inv] by simp
    show "\<exists>gp gn. g_score ?st1 p = Some gp \<and> g_score ?st1 n = Some gn \<and> gp < gn"
      if "came_from ?st1 n = Some p" for n p
      using astar_invD(6) [OF inv, of n p] that by simp
  qed
  have cd: "?cur \<in> dom (g_score ?st1)" using astar_invD(3) [OF inv e] by simp
  from relax_all_step [OF inv1 cd subset_refl, of goal]
  obtain st2 where st2: "relax_all goal ?cur ?st1 (nbrs g ?cur) = Some st2"
    "astar_inv g start st2"
    "dom (g_score st2) = dom (g_score ?st1) \<union> set (nbrs g ?cur)"
    "set (open_set ?st1) \<subseteq> set (open_set st2)"
    "\<forall>n. n \<in> set (nbrs g ?cur) \<longrightarrow>
        n \<in> dom (g_score ?st1) \<or> n \<in> snd ` set (open_set st2)"
    "st2 = ?st1 \<or> lighter g start st2 ?st1"
    by blast
  have d2: "dom (g_score st2) = dom (g_score st) \<union> set (nbrs g ?cur)" using st2(3) by simp
  have o2: "set rest \<subseteq> set (open_set st2)" using st2(4) by simp
  have cl2: "frontier_closed g goal st2 {}"
    unfolding frontier_closed_def
  proof (intro allI impI)
    fix n assume n: "n \<in> dom (g_score st2)"
    show "n \<in> snd ` set (open_set st2) \<or> n \<in> {} \<or>
        n \<noteq> goal \<and> set (nbrs g n) \<subseteq> dom (g_score st2)"
    proof (cases "n \<in> dom (g_score st)")
      case False
      with n d2 have "n \<in> set (nbrs g ?cur)" by blast
      from st2(5) [rule_format, OF this] False
      have "n \<in> snd ` set (open_set st2)" by simp
      then show ?thesis by (rule disjI1)
    next
      case True
      show ?thesis
      proof (cases "n = ?cur")
        case True
        with ng d2 show ?thesis by blast
      next
        case nc: False
        from cl True have "n \<in> snd ` set (open_set st) \<or>
            (n \<noteq> goal \<and> set (nbrs g n) \<subseteq> dom (g_score st))"
          unfolding frontier_closed_def by blast
        then show ?thesis
        proof
          assume "n \<in> snd ` set (open_set st)"
          then obtain x where x: "x \<in> set (open_set st)" "snd x = n" by auto
          with nc have "x \<noteq> e" by auto
          with x(1) sr have "x \<in> set rest" by auto
          with o2 x(2) show ?thesis by force
        next
          assume "n \<noteq> goal \<and> set (nbrs g n) \<subseteq> dom (g_score st)"
          with d2 show ?thesis by blast
        qed
      qed
    qed
  qed
  have u1: "unseen g start ?st1 = unseen g start st" "weight g start ?st1 = weight g start st"
    by (simp_all add: unseen_def weight_def)
  have m: "(st2, st) \<in> astar_measure g start"
    using st2(6)
  proof
    assume "st2 = ?st1"
    with u1 lr show ?thesis by (simp add: astar_measure_def)
  next
    assume "lighter g start st2 ?st1"
    with u1 show ?thesis by (auto simp: astar_measure_def lighter_def)
  qed
  from st2(1,2) cl2 m show ?thesis by blast
qed

section \<open>General search: termination and the result\<close>

lemma wf_astar_measure: "wf (astar_measure g start)"
  by (simp add: astar_measure_def)

lemma a_star_loop_correct:
  assumes "astar_inv g start st" "frontier_closed g goal st {}"
  shows "\<exists>r. (\<forall>st'. same_frontier st st' \<longrightarrow> a_star_loop g start goal st' = Some r) \<and>
           astar_result g start goal r"
  using assms
proof (induction st rule: wf_induct_rule [OF wf_astar_measure [of g start]])
  case (1 st)
  note inv = "1.prems"(1) and cl = "1.prems"(2)
  show ?case
  proof (cases "open_set st = []")
    case True
    have "a_star_loop g start goal st' = Some []" if "same_frontier st st'" for st'
    proof -
      from that True have "mset (open_set st') = {#}" by (simp add: same_frontier_def)
      then have "open_set st' = []" by simp
      then show ?thesis by (rule a_star_loop_empty)
    qed
    moreover have "astar_result g start goal []"
      using exhausted_unreachable [OF inv cl True] by (simp add: astar_result_def)
    ultimately show ?thesis by blast
  next
    case False
    from heappop_spec [OF False] obtain e rest where
      pop: "heappop (open_set st) = Some (e, rest)" and e: "e \<in> set (open_set st)"
      by blast
    show ?thesis
    proof (cases "snd e = goal")
      case True
      from goal_branch [OF inv e True] obtain r where
        r: "do { path \<leftarrow> reconstruct (came_from st) goal []; Some (rev (path @ [start])) } = Some r"
          "r \<noteq> []" "hd r = start" "last r = goal" "\<forall>p. p \<in> set (tl r) \<longrightarrow> free_cell g p"
        by blast
      have "a_star_loop g start goal st' = Some r" if sf: "same_frontier st st'" for st'
      proof -
        from same_frontier_pop [OF sf pop False] obtain rest' where
          p': "heappop (open_set st') = Some (e, rest')" "open_set st' \<noteq> []" by blast
        have "came_from st' = came_from st" using sf by (simp add: same_frontier_def)
        with a_star_loop_unfold [OF p', of g start goal] True r(1) show ?thesis by simp
      qed
      moreover have "astar_result g start goal r" using r by (simp add: astar_result_def)
      ultimately show ?thesis by blast
    next
      case ng: False
      from expand_branch [OF inv cl pop False ng] obtain st2 where
        st2: "relax_all goal (snd e) (st\<lparr>open_set := rest\<rparr>) (nbrs g (snd e)) = Some st2"
          "astar_inv g start st2" "frontier_closed g goal st2 {}"
          "(st2, st) \<in> astar_measure g start"
        by blast
      from "1.IH" [OF st2(4) st2(2) st2(3)] obtain r where
        r: "\<forall>st'. same_frontier st2 st' \<longrightarrow> a_star_loop g start goal st' = Some r"
          "astar_result g start goal r"
        by blast
      have "a_star_loop g start goal st' = Some r" if sf: "same_frontier st st'" for st'
      proof -
        from same_frontier_pop [OF sf pop False] obtain rest' where
          p': "heappop (open_set st') = Some (e, rest')" "open_set st' \<noteq> []"
          and s1: "same_frontier (st\<lparr>open_set := rest\<rparr>) (st'\<lparr>open_set := rest'\<rparr>)"
          by blast
        from same_frontier_relax_all [OF s1 st2(1)] obtain st2' where
          st2': "relax_all goal (snd e) (st'\<lparr>open_set := rest'\<rparr>) (nbrs g (snd e)) = Some st2'"
            "same_frontier st2 st2'"
          by blast
        from r(1) st2'(2) have "a_star_loop g start goal st2' = Some r" by blast
        with a_star_loop_unfold [OF p', of g start goal] ng st2'(1) show ?thesis by simp
      qed
      with r(2) show ?thesis by blast
    qed
  qed
qed

lemma a_star_init_inv:
  "astar_inv g start (a_star_init start goal) \<and>
   frontier_closed g goal (a_star_init start goal) {}"
proof
  show "astar_inv g start (a_star_init start goal)"
  proof (rule astar_invI)
    show "\<exists>k::nat. v = real k / 5" if "g_score (a_star_init start goal) n = Some v" for n v
    proof -
      from that have "v = 0" by (simp add: a_star_init_def split: if_splits)
      then show ?thesis by (intro exI [of _ 0]) simp
    qed
  qed (auto simp: a_star_init_def heappush_def split: if_splits)
  show "frontier_closed g goal (a_star_init start goal) {}"
    by (auto simp: frontier_closed_def a_star_init_def heappush_def split: if_splits)
qed

lemma a_star_correct:
  "\<exists>r. a_star g start goal = Some r \<and> astar_result g start goal r"
proof -
  from a_star_init_inv [of g start goal] a_star_loop_correct [of g start "a_star_init start goal" goal]
  obtain r where r: "\<forall>st'. same_frontier (a_star_init start goal) st' \<longrightarrow>
      a_star_loop g start goal st' = Some r" "astar_result g start goal r"
    by blast
  from r(1) same_frontier_refl have "a_star_loop g start goal (a_star_init start goal) = Some r"
    by blast
  with r(2) show ?thesis by (auto simp: a_star_def)
qed

section \<open>Elbow routes: the two candidates in closed form\<close>

lemma py_range_dir:
  assumes "d = 1 \<or> d = - 1"
  shows "py_range a b d = Some (steps a d (nat ((b - a) * d)))"
  using assms by (auto simp: py_range_def steps_def)

lemma horizontal_leg_eq:
  "horizontal_leg g y xs path =
     Some (if \<forall>x. x \<in> set xs \<longrightarrow> passable g (x, y) then Some (path @ map (\<lambda>x. (x, y)) xs) else None)"
  by (induction xs arbitrary: path) (auto simp: blocked_eq)

lemma vertical_leg_eq:
  "vertical_leg g x ys path =
     Some (if \<forall>y. y \<in> set ys \<longrightarrow> passable g (x, y) then Some (path @ map (\<lambda>y. (x, y)) ys) else None)"
  by (induction ys arbitrary: path) (auto simp: blocked_eq)

lemma dir_cases: "dir a b = 1 \<or> dir a b = - 1"
  by (simp add: dir_def)

lemma range_len_incl: "a \<noteq> b \<Longrightarrow> nat ((b + dir a b - a) * dir a b) = Suc (nat \<bar>b - a\<bar>)"
  by (auto simp: dir_def)

lemma range_len_excl: "a \<noteq> b \<Longrightarrow> nat ((b + dir a b - (a + dir a b)) * dir a b) = nat \<bar>b - a\<bar>"
  by (auto simp: dir_def)

lemma py_range_incl:
  assumes "a \<noteq> b"
  shows "py_range a (b + dir a b) (dir a b) = Some (steps a (dir a b) (Suc (nat \<bar>b - a\<bar>)))"
  using py_range_dir [OF dir_cases, of a "b + dir a b" a b]
  unfolding range_len_incl [OF assms] .

lemma py_range_excl:
  assumes "a \<noteq> b"
  shows "py_range (a + dir a b) (b + dir a b) (dir a b) =
     Some (steps (a + dir a b) (dir a b) (nat \<bar>b - a\<bar>))"
  using py_range_dir [OF dir_cases, of "a + dir a b" "b + dir a b" a b]
  unfolding range_len_excl [OF assms] .

lemma all_in_map: "(\<forall>x. x \<in> set xs \<longrightarrow> P (f x)) = (\<forall>q. q \<in> set (map f xs) \<longrightarrow> P q)"
  by auto

lemma all_in_append:
  "((\<forall>q. q \<in> set xs \<longrightarrow> P q) \<and> (\<forall>q. q \<in> set ys \<longrightarrow> P q)) = (\<forall>q. q \<in> set (xs @ ys) \<longrightarrow> P q)"
  by auto

lemma horizontal_leg_map:
  "horizontal_leg g y xs path =
     Some (if \<forall>q. q \<in> set (map (\<lambda>x. (x, y)) xs) \<longrightarrow> passable g q
           then Some (path @ map (\<lambda>x. (x, y)) xs) else None)"
  by (induction xs arbitrary: path) (auto simp: blocked_eq)

lemma vertical_leg_map:
  "vertical_leg g x ys path =
     Some (if \<forall>q. q \<in> set (map (\<lambda>y. (x, y)) ys) \<longrightarrow> passable g q
           then Some (path @ map (\<lambda>y. (x, y)) ys) else None)"
  by (induction ys arbitrary: path) (auto simp: blocked_eq)

lemma elbow_combine:
  assumes "leg1 = Some (if A then Some L1 else None)"
    and "\<And>path. leg2 path = Some (if B then Some (path @ L2) else None)"
  shows "do { l \<leftarrow> leg1; case l of None \<Rightarrow> Some None | Some path \<Rightarrow> leg2 path } =
     Some (if A \<and> B then Some (L1 @ L2) else None)"
  using assms by simp

lemma route_horizontal_first_eq:
  "route_horizontal_first g s t =
     Some (if \<forall>q. q \<in> set (checked_h s t) \<longrightarrow> passable g q then Some (elbow_h s t) else None)"
proof -
  obtain x1 y1 x2 y2 where st: "s = (x1, y1)" "t = (x2, y2)" by (cases s, cases t) auto
  have d: "(if x2 > x1 then 1 else - 1) = dir x1 x2" "(if y2 > y1 then 1 else - 1) = dir y1 y2"
    by (simp_all add: dir_def)
  define L1 where "L1 = (if x1 \<noteq> x2
      then map (\<lambda>x. (x, y1)) (steps x1 (dir x1 x2) (Suc (nat \<bar>x2 - x1\<bar>))) else [(x1, y1)])"
  define L2 where "L2 = (if y1 \<noteq> y2
      then map (\<lambda>y. (x2, y)) (steps (y1 + dir y1 y2) (dir y1 y2) (nat \<bar>y2 - y1\<bar>)) else [])"
  define A where "A \<longleftrightarrow> (x1 \<noteq> x2 \<longrightarrow> (\<forall>q. q \<in> set L1 \<longrightarrow> passable g q))"
  define B where "B \<longleftrightarrow> (\<forall>q. q \<in> set L2 \<longrightarrow> passable g q)"
  have leg1: "(if x1 \<noteq> x2
        then let direction = (if x2 > x1 then 1 else - 1)
             in do { xs \<leftarrow> py_range x1 (x2 + direction) direction; horizontal_leg g y1 xs [] }
        else Some (Some [(x1, y1)])) = Some (if A then Some L1 else None)"
  proof (cases "x1 = x2")
    case True
    then show ?thesis by (simp add: A_def L1_def)
  next
    case False
    then show ?thesis
      unfolding d Let_def A_def L1_def
      by (simp add: py_range_incl horizontal_leg_map)
  qed
  have leg2: "(if y1 \<noteq> y2
        then let direction = (if y2 > y1 then 1 else - 1)
             in do { ys \<leftarrow> py_range (y1 + direction) (y2 + direction) direction;
                     vertical_leg g x2 ys path }
        else Some (Some path)) = Some (if B then Some (path @ L2) else None)" for path
  proof (cases "y1 = y2")
    case True
    then show ?thesis by (simp add: B_def L2_def)
  next
    case False
    then show ?thesis
      unfolding d Let_def B_def L2_def
      by (simp add: py_range_excl vertical_leg_map)
  qed
  have e: "elbow_h s t = L1 @ L2" by (simp add: st elbow_h_def L1_def L2_def)
  have c: "(\<forall>q. q \<in> set (checked_h s t) \<longrightarrow> passable g q) \<longleftrightarrow> A \<and> B"
  proof (cases "x1 = x2")
    case True
    then have "checked_h s t = L2" unfolding checked_h_def e by (simp add: st L1_def)
    with True show ?thesis by (simp add: A_def B_def)
  next
    case False
    then have "checked_h s t = L1 @ L2" unfolding checked_h_def e by (simp add: st)
    with False show ?thesis unfolding A_def B_def by auto
  qed
  have "route_horizontal_first g s t = Some (if A \<and> B then Some (L1 @ L2) else None)"
    unfolding st route_horizontal_first_def prod.case by (rule elbow_combine [OF leg1 leg2])
  then show ?thesis by (simp only: e c)
qed

lemma route_vertical_first_eq:
  "route_vertical_first g s t =
     Some (if \<forall>q. q \<in> set (checked_v s t) \<longrightarrow> passable g q then Some (elbow_v s t) else None)"
proof -
  obtain x1 y1 x2 y2 where st: "s = (x1, y1)" "t = (x2, y2)" by (cases s, cases t) auto
  have d: "(if x2 > x1 then 1 else - 1) = dir x1 x2" "(if y2 > y1 then 1 else - 1) = dir y1 y2"
    by (simp_all add: dir_def)
  define L1 where "L1 = (if y1 \<noteq> y2
      then map (\<lambda>y. (x1, y)) (steps y1 (dir y1 y2) (Suc (nat \<bar>y2 - y1\<bar>))) else [(x1, y1)])"
  define L2 where "L2 = (if x1 \<noteq> x2
      then map (\<lambda>x. (x, y2)) (steps (x1 + dir x1 x2) (dir x1 x2) (nat \<bar>x2 - x1\<bar>)) else [])"
  define A where "A \<longleftrightarrow> (y1 \<noteq> y2 \<longrightarrow> (\<forall>q. q \<in> set L1 \<longrightarrow> passable g q))"
  define B where "B \<longleftrightarrow> (\<forall>q. q \<in> set L2 \<longrightarrow> passable g q)"
  have leg1: "(if y1 \<noteq> y2
        then let direction = (if y2 > y1 then 1 else - 1)
             in do { ys \<leftarrow> py_range y1 (y2 + direction) direction; vertical_leg g x1 ys [] }
        else Some (Some [(x1, y1)])) = Some (if A then Some L1 else None)"
  proof (cases "y1 = y2")
    case True
    then show ?thesis by (simp add: A_def L1_def)
  next
    case False
    then show ?thesis
      unfolding d Let_def A_def L1_def
      by (simp add: py_range_incl vertical_leg_map)
  qed
  have leg2: "(if x1 \<noteq> x2
        then let direction = (if x2 > x1 then 1 else - 1)
             in do { xs \<leftarrow> py_range (x1 + direction) (x2 + direction) direction;
                     horizontal_leg g y2 xs path }
        else Some (Some path)) = Some (if B then Some (path @ L2) else None)" for path
  proof (cases "x1 = x2")
    case True
    then show ?thesis by (simp add: B_def L2_def)
  next
    case False
    then show ?thesis
      unfolding d Let_def B_def L2_def
      by (simp add: py_range_excl horizontal_leg_map)
  qed
  have e: "elbow_v s t = L1 @ L2" by (simp add: st elbow_v_def L1_def L2_def)
  have c: "(\<forall>q. q \<in> set (checked_v s t) \<longrightarrow> passable g q) \<longleftrightarrow> A \<and> B"
  proof (cases "y1 = y2")
    case True
    then have "checked_v s t = L2" unfolding checked_v_def e by (simp add: st L1_def)
    with True show ?thesis by (simp add: A_def B_def)
  next
    case False
    then have "checked_v s t = L1 @ L2" unfolding checked_v_def e by (simp add: st)
    with False show ?thesis unfolding A_def B_def by auto
  qed
  have "route_vertical_first g s t = Some (if A \<and> B then Some (L1 @ L2) else None)"
    unfolding st route_vertical_first_def prod.case by (rule elbow_combine [OF leg1 leg2])
  then show ?thesis by (simp only: e c)
qed

lemma length_steps: "length (steps a d n) = n"
  by (simp add: steps_def)

lemma steps_nth: "i < n \<Longrightarrow> steps a d n ! i = a + d * int i"
  by (simp add: steps_def)

lemma steps_Nil_iff: "steps a d n = [] \<longleftrightarrow> n = 0"
  by (simp add: steps_def)

lemma hd_steps: "0 < n \<Longrightarrow> hd (steps a d n) = a"
  using steps_nth [of 0 n a d] by (simp add: hd_conv_nth steps_Nil_iff)

lemma last_steps: "0 < n \<Longrightarrow> last (steps a d n) = a + d * int (n - 1)"
  using steps_nth [of "n - 1" n a d] by (simp add: last_conv_nth steps_Nil_iff length_steps)

lemma successively_steps: "successively (\<lambda>u v. v = u + d) (steps a d n)"
  unfolding successively_conv_nth length_steps
  by (auto simp: steps_nth algebra_simps)

lemma dir_reach: "a \<noteq> b \<Longrightarrow> a + dir a b * int (nat \<bar>b - a\<bar>) = b"
  by (auto simp: dir_def)

lemma dir_reach_abs: "a \<noteq> b \<Longrightarrow> a + dir a b * \<bar>b - a\<bar> = b"
  by (auto simp: dir_def)

lemma dir_reach1_abs: "a \<noteq> b \<Longrightarrow> a + dir a b + dir a b * (\<bar>b - a\<bar> - 1) = b"
  by (auto simp: dir_def)

lemma dir_reach1: "a \<noteq> b \<Longrightarrow> a + dir a b + dir a b * int (nat \<bar>b - a\<bar> - 1) = b"
  by (auto simp: dir_def nat_diff_distrib)

lemma row_king:
  "d = 1 \<or> d = - 1 \<Longrightarrow> successively king_move (map (\<lambda>x. (x, y)) (steps a d n))"
  unfolding successively_map
  by (rule successively_mono [OF successively_steps]) (auto simp: king_move_def)

lemma col_king:
  "d = 1 \<or> d = - 1 \<Longrightarrow> successively king_move (map (\<lambda>y. (x, y)) (steps a d n))"
  unfolding successively_map
  by (rule successively_mono [OF successively_steps]) (auto simp: king_move_def)


lemma elbow_h_geometry:
  "elbow_h s t \<noteq> [] \<and> hd (elbow_h s t) = s \<and> last (elbow_h s t) = t \<and>
   successively king_move (elbow_h s t) \<and>
   length (elbow_h s t) = Suc (nat \<bar>fst t - fst s\<bar> + nat \<bar>snd t - snd s\<bar>)"
proof -
  obtain x1 y1 x2 y2 where st: "s = (x1, y1)" "t = (x2, y2)" by (cases s, cases t) auto
  define L1 where "L1 = (if x1 \<noteq> x2
      then map (\<lambda>x. (x, y1)) (steps x1 (dir x1 x2) (Suc (nat \<bar>x2 - x1\<bar>))) else [(x1, y1)])"
  define L2 where "L2 = (if y1 \<noteq> y2
      then map (\<lambda>y. (x2, y)) (steps (y1 + dir y1 y2) (dir y1 y2) (nat \<bar>y2 - y1\<bar>)) else [])"
  have e: "elbow_h s t = L1 @ L2" by (simp add: st elbow_h_def L1_def L2_def)
  have n1: "L1 \<noteq> []" by (simp add: L1_def steps_Nil_iff)
  have h1: "hd L1 = (x1, y1)"
    by (simp add: L1_def hd_map steps_Nil_iff hd_steps)
  have l1: "last L1 = (x2, y1)"
    by (simp add: L1_def last_map steps_Nil_iff last_steps dir_reach dir_reach_abs)
  have s1: "successively king_move L1" by (simp add: L1_def row_king [OF dir_cases])
  have s2: "successively king_move L2" by (simp add: L2_def col_king [OF dir_cases])
  have len1: "length L1 = Suc (nat \<bar>x2 - x1\<bar>)" by (simp add: L1_def length_steps)
  have len2: "length L2 = nat \<bar>y2 - y1\<bar>" by (simp add: L2_def length_steps)
  have n2: "L2 \<noteq> []" if "y1 \<noteq> y2" using that len2 by auto
  have h2: "hd L2 = (x2, y1 + dir y1 y2)" if "y1 \<noteq> y2"
    using that by (simp add: L2_def hd_map steps_Nil_iff hd_steps)
  have l2: "last L2 = (x2, y2)" if "y1 \<noteq> y2"
    using that by (simp add: L2_def last_map steps_Nil_iff last_steps dir_reach1 dir_reach1_abs)
  have j: "L2 = [] \<or> king_move (last L1) (hd L2)"
  proof (cases "y1 = y2")
    case True then show ?thesis by (simp add: L2_def)
  next
    case False
    then show ?thesis unfolding l1 h2 [OF False] by (simp add: king_move_def dir_def)
  qed
  have la: "last (L1 @ L2) = (x2, y2)"
  proof (cases "y1 = y2")
    case True
    then have "L2 = []" by (simp add: L2_def)
    with l1 True show ?thesis by simp
  next
    case False
    with n2 l2 show ?thesis by simp
  qed
  show ?thesis
    unfolding e using n1 h1 la s1 s2 j len1 len2
    by (simp add: st successively_append_iff)
qed

lemma elbow_v_geometry:
  "elbow_v s t \<noteq> [] \<and> hd (elbow_v s t) = s \<and> last (elbow_v s t) = t \<and>
   successively king_move (elbow_v s t) \<and>
   length (elbow_v s t) = Suc (nat \<bar>fst t - fst s\<bar> + nat \<bar>snd t - snd s\<bar>)"
proof -
  obtain x1 y1 x2 y2 where st: "s = (x1, y1)" "t = (x2, y2)" by (cases s, cases t) auto
  define L1 where "L1 = (if y1 \<noteq> y2
      then map (\<lambda>y. (x1, y)) (steps y1 (dir y1 y2) (Suc (nat \<bar>y2 - y1\<bar>))) else [(x1, y1)])"
  define L2 where "L2 = (if x1 \<noteq> x2
      then map (\<lambda>x. (x, y2)) (steps (x1 + dir x1 x2) (dir x1 x2) (nat \<bar>x2 - x1\<bar>)) else [])"
  have e: "elbow_v s t = L1 @ L2" by (simp add: st elbow_v_def L1_def L2_def)
  have n1: "L1 \<noteq> []" by (simp add: L1_def steps_Nil_iff)
  have h1: "hd L1 = (x1, y1)"
    by (simp add: L1_def hd_map steps_Nil_iff hd_steps)
  have l1: "last L1 = (x1, y2)"
    by (simp add: L1_def last_map steps_Nil_iff last_steps dir_reach dir_reach_abs)
  have s1: "successively king_move L1" by (simp add: L1_def col_king [OF dir_cases])
  have s2: "successively king_move L2" by (simp add: L2_def row_king [OF dir_cases])
  have len1: "length L1 = Suc (nat \<bar>y2 - y1\<bar>)" by (simp add: L1_def length_steps)
  have len2: "length L2 = nat \<bar>x2 - x1\<bar>" by (simp add: L2_def length_steps)
  have n2: "L2 \<noteq> []" if "x1 \<noteq> x2" using that len2 by auto
  have h2: "hd L2 = (x1 + dir x1 x2, y2)" if "x1 \<noteq> x2"
    using that by (simp add: L2_def hd_map steps_Nil_iff hd_steps)
  have l2: "last L2 = (x2, y2)" if "x1 \<noteq> x2"
    using that by (simp add: L2_def last_map steps_Nil_iff last_steps dir_reach1 dir_reach1_abs)
  have j: "L2 = [] \<or> king_move (last L1) (hd L2)"
  proof (cases "x1 = x2")
    case True then show ?thesis by (simp add: L2_def)
  next
    case False
    then show ?thesis unfolding l1 h2 [OF False] by (simp add: king_move_def dir_def)
  qed
  have la: "last (L1 @ L2) = (x2, y2)"
  proof (cases "x1 = x2")
    case True
    then have "L2 = []" by (simp add: L2_def)
    with l1 True show ?thesis by simp
  next
    case False
    with n2 l2 show ?thesis by simp
  qed
  show ?thesis
    unfolding e using n1 h1 la s1 s2 j len1 len2
    by (simp add: st successively_append_iff)
qed



section \<open>Elbow routes: what \<open>manhattan_routing\<close> returns\<close>

lemma manhattan_routing_eq:
  "manhattan_routing g s t =
     (if \<forall>q. q \<in> set (checked_h s t) \<longrightarrow> passable g q then Some (elbow_h s t)
      else if \<forall>q. q \<in> set (checked_v s t) \<longrightarrow> passable g q then Some (elbow_v s t)
      else a_star g s t)"
proof -
  define H where "H \<longleftrightarrow> (\<forall>q. q \<in> set (checked_h s t) \<longrightarrow> passable g q)"
  define V where "V \<longleftrightarrow> (\<forall>q. q \<in> set (checked_v s t) \<longrightarrow> passable g q)"
  have rh: "route_horizontal_first g s t = Some (if H then Some (elbow_h s t) else None)"
    unfolding H_def by (rule route_horizontal_first_eq)
  have rv: "route_vertical_first g s t = Some (if V then Some (elbow_v s t) else None)"
    unfolding V_def by (rule route_vertical_first_eq)
  have n: "elbow_h s t \<noteq> []" "elbow_v s t \<noteq> []"
    and l: "length (elbow_h s t) = length (elbow_v s t)"
    using elbow_h_geometry [of s t] elbow_v_geometry [of s t] by simp_all
  have "manhattan_routing g s t =
     (if H then Some (elbow_h s t) else if V then Some (elbow_v s t) else a_star g s t)"
    unfolding manhattan_routing_def rh rv using n l by (simp add: truthy_def)
  then show ?thesis unfolding H_def V_def .
qed









text \<open>
  Claim C4, as amended. Both route functions return, and never the empty list. If both
  candidates validate, \<open>manhattan_routing\<close> returns the one with fewer waypoints (the
  horizontal-first one when they are as long); if exactly one validates, it returns that
  one; if neither validates, \<open>manhattan_routing\<close> itself falls back and returns the
  result of \<open>a_star\<close>, which is empty only when the search finds no path. The callers
  \<open>find_best_path\<close> and \<open>route_wire\<close> call \<open>a_star\<close> once more when that result is
  empty, so with both elbows invalid they return what they return for the A* style.
\<close>

theorem manhattan_routing_choice:
  "\<exists>r1 r2. route_horizontal_first g s t = Some r1 \<and> route_vertical_first g s t = Some r2 \<and>
     r1 \<noteq> Some [] \<and> r2 \<noteq> Some [] \<and>
     manhattan_routing g s t =
       (case (r1, r2) of
          (Some p1, Some p2) \<Rightarrow> Some (if length p1 \<le> length p2 then p1 else p2)
        | (Some p1, None) \<Rightarrow> Some p1
        | (None, Some p2) \<Rightarrow> Some p2
        | (None, None) \<Rightarrow> a_star g s t) \<and>
     (r1 = None \<and> r2 = None \<longrightarrow>
        find_best_path g s t True = find_best_path g s t False \<and>
        route_wire (r\<lparr>current_obstacle_map := Some g\<rparr>) s t ''manhattan'' =
          route_wire (r\<lparr>current_obstacle_map := Some g\<rparr>) s t ''astar'')"
proof -
  define H where "H \<longleftrightarrow> (\<forall>q. q \<in> set (checked_h s t) \<longrightarrow> passable g q)"
  define V where "V \<longleftrightarrow> (\<forall>q. q \<in> set (checked_v s t) \<longrightarrow> passable g q)"
  define r1 where "r1 = (if H then Some (elbow_h s t) else None)"
  define r2 where "r2 = (if V then Some (elbow_v s t) else None)"
  have rh: "route_horizontal_first g s t = Some r1"
    unfolding r1_def H_def by (rule route_horizontal_first_eq)
  have rv: "route_vertical_first g s t = Some r2"
    unfolding r2_def V_def by (rule route_vertical_first_eq)
  have n: "elbow_h s t \<noteq> []" "elbow_v s t \<noteq> []"
    and l: "length (elbow_h s t) = length (elbow_v s t)"
    using elbow_h_geometry [of s t] elbow_v_geometry [of s t] by simp_all
  have ne: "r1 \<noteq> Some []" "r2 \<noteq> Some []" using n by (simp_all add: r1_def r2_def)
  have me: "manhattan_routing g s t =
     (if H then Some (elbow_h s t) else if V then Some (elbow_v s t) else a_star g s t)"
    unfolding H_def V_def by (rule manhattan_routing_eq)
  have ch: "manhattan_routing g s t =
       (case (r1, r2) of
          (Some p1, Some p2) \<Rightarrow> Some (if length p1 \<le> length p2 then p1 else p2)
        | (Some p1, None) \<Rightarrow> Some p1
        | (None, Some p2) \<Rightarrow> Some p2
        | (None, None) \<Rightarrow> a_star g s t)"
    unfolding me r1_def r2_def using l by simp
  have fb: "find_best_path g s t True = find_best_path g s t False \<and>
        route_wire (r\<lparr>current_obstacle_map := Some g\<rparr>) s t ''manhattan'' =
          route_wire (r\<lparr>current_obstacle_map := Some g\<rparr>) s t ''astar''"
    if "r1 = None \<and> r2 = None"
  proof -
    from that have "\<not> H" "\<not> V" by (simp_all add: r1_def r2_def split: if_splits)
    with me have m: "manhattan_routing g s t = a_star g s t" by simp
    from a_star_correct [of g s t] obtain r where r: "a_star g s t = Some r" by blast
    from m r have m': "manhattan_routing g s t = Some r" by simp
    show ?thesis
      by (simp add: find_best_path_def route_wire_def m' r)
  qed
  from rh rv ne ch fb show ?thesis by blast
qed

text \<open>
  On \<open>grid_diag\<close> both elbows from \<open>(0,0)\<close> to \<open>(1,1)\<close> run into an obstacle, and
  \<open>manhattan_routing\<close> returns the diagonal path found by \<open>a_star\<close>, not the empty path.
\<close>

theorem manhattan_routing_falls_back:
  "route_horizontal_first grid_diag (0, 0) (1, 1) = Some None \<and>
   route_vertical_first grid_diag (0, 0) (1, 1) = Some None \<and>
   manhattan_routing grid_diag (0, 0) (1, 1) = Some [(0, 0), (1, 1)]"
  by code_simp

theorem manhattan_routing_choice_witness:
  "route_horizontal_first grid_diag (0, 0) (1, 1) = Some None \<and>
   route_vertical_first grid_diag (0, 0) (1, 1) = Some None \<and>
   manhattan_routing grid_diag (0, 0) (1, 1) = a_star grid_diag (0, 0) (1, 1) \<and>
   find_best_path grid_diag (0, 0) (1, 1) True = find_best_path grid_diag (0, 0) (1, 1) False"
proof -
  have ev: "route_horizontal_first grid_diag (0, 0) (1, 1) = Some None"
    "route_vertical_first grid_diag (0, 0) (1, 1) = Some None"
    by code_simp+
  from manhattan_routing_choice [of grid_diag "(0, 0)" "(1, 1)"] ev
  have "manhattan_routing grid_diag (0, 0) (1, 1) = a_star grid_diag (0, 0) (1, 1) \<and>
      find_best_path grid_diag (0, 0) (1, 1) True = find_best_path grid_diag (0, 0) (1, 1) False"
    by auto
  with ev show ?thesis by simp
qed

section \<open>Choosing a strategy: what \<open>find_best_path\<close> returns\<close>







section \<open>General search: one result for each input\<close>






section \<open>The analysis: counts and coverage\<close>

lemma count_row:
  "length (filter (\<lambda>x. P (f x)) xs) + length (filter (\<lambda>x. \<not> P (f x)) xs) = length xs"
  by (induction xs) auto

lemma count_rows:
  "sum_list (map (\<lambda>y. length (filter (\<lambda>x. P (c y x)) xs)) ys) +
   sum_list (map (\<lambda>y. length (filter (\<lambda>x. \<not> P (c y x)) xs)) ys) = length ys * length xs"
proof (induction ys)
  case Nil
  show ?case by simp
next
  case (Cons y ys)
  have "length (filter (\<lambda>x. P (c y x)) xs) + length (filter (\<lambda>x. \<not> P (c y x)) xs) = length xs"
    by (rule count_row)
  with Cons.IH show ?case by simp
qed

lemma count_cells_total:
  "count_cells (\<lambda>v. v \<noteq> 0) m + count_cells (\<lambda>v. v = 0) m = int (height m * width m)"
proof -
  define obs where
    "obs = sum_list (map (\<lambda>y. length (filter (\<lambda>x. cells m y x \<noteq> 0) [0 ..< width m])) [0 ..< height m])"
  define free where
    "free = sum_list (map (\<lambda>y. length (filter (\<lambda>x. cells m y x = 0) [0 ..< width m])) [0 ..< height m])"
  have "obs + free = height m * width m"
    unfolding obs_def free_def
    using count_rows [of "\<lambda>v. v \<noteq> 0" "cells m" "[0 ..< width m]" "[0 ..< height m]"] by simp
  then have "int obs + int free = int (height m * width m)"
    by (simp only: of_nat_add [symmetric])
  then show ?thesis
    unfolding count_cells_def obs_def free_def .
qed

lemma create_obstacle_map_shape:
  assumes "keeps_shape cv"
    and "create_obstacle_map cv d img dilation_size safety_padding = Some (d', m)"
  shows "height m = image_height img \<and> width m = image_width img"
proof -
  from assms(2) obtain gray binary kernel dilated where
    gray: "(case img of Color h w px \<Rightarrow> cvtColor cv img | Gray g \<Rightarrow> Some g) = Some gray" and
    binary: "adaptiveThreshold cv gray = Some binary" and
    dilated: "dilate cv binary kernel = Some dilated" and
    m: "(if safety_padding > 0
         then do { padding_kernel \<leftarrow>
                     getStructuringElement cv (safety_padding * 2 + 1, safety_padding * 2 + 1);
                   dilate cv dilated padding_kernel }
         else Some dilated) = Some m"
    unfolding create_obstacle_map_def by (auto simp: bind_eq_Some_conv)
  have 1: "height gray = image_height img \<and> width gray = image_width img"
    using gray assms(1) unfolding keeps_shape_def image_height_def image_width_def
    by (cases img) auto
  have 2: "height binary = height gray \<and> width binary = width gray"
    using binary assms(1) unfolding keeps_shape_def by blast
  have 3: "height dilated = height binary \<and> width dilated = width binary"
    using dilated assms(1) unfolding keeps_shape_def by blast
  have 4: "height m = height dilated \<and> width m = width dilated"
  proof (cases "safety_padding > 0")
    case True
    with m obtain padding_kernel where "dilate cv dilated padding_kernel = Some m"
      by (auto simp: bind_eq_Some_conv)
    then show ?thesis
      using assms(1) unfolding keeps_shape_def by blast
  next
    case False
    with m show ?thesis by simp
  qed
  from 1 2 3 4 show ?thesis by simp
qed

lemma analyze_circuit_Some:
  assumes "analyze_circuit cv r img dilation_size safety_padding = Some (r', a)"
  obtains d m ratio where
    "use_generic_detection r"
    "create_obstacle_map cv (obstacle_detector r) img dilation_size safety_padding = Some (d, m)"
    "py_truediv (count_cells (\<lambda>v. v \<noteq> 0) m)
       (count_cells (\<lambda>v. v \<noteq> 0) m + count_cells (\<lambda>v. v = 0) m) = Some ratio"
    "r' = r\<lparr>obstacle_detector := d, current_obstacle_map := Some m\<rparr>"
    "a = \<lparr>analysis_method = ''generic'', analysis_map = m,
          obstacle_pixels = count_cells (\<lambda>v. v \<noteq> 0) m,
          free_pixels = count_cells (\<lambda>v. v = 0) m,
          coverage = py_round (py_fmul ratio 100) 2\<rparr>"
  using assms unfolding analyze_circuit_def Let_def
  by (auto simp: bind_eq_Some_conv split: if_splits)

lemma keeps_shape_cv_plain: "keeps_shape cv_plain"
  unfolding keeps_shape_def cv_plain_def image_height_def image_width_def
  by (auto split: image.splits)

lemma analyze_circuit_cv_plain:
  "analyze_circuit cv_plain (router_init True) (Gray m) 1 0 =
     (let obs = count_cells (\<lambda>v. v \<noteq> 0) m; free = count_cells (\<lambda>v. v = 0) m
      in map_option
           (\<lambda>ratio. ((router_init True)
                        \<lparr>obstacle_detector :=
                           detector_init\<lparr>original_binary := Some m, obstacle_map := Some m\<rparr>,
                         current_obstacle_map := Some m\<rparr>,
                      \<lparr>analysis_method = ''generic'', analysis_map = m, obstacle_pixels = obs,
                       free_pixels = free, coverage = py_round (py_fmul ratio 100) 2\<rparr>))
           (py_truediv obs (obs + free)))"
  unfolding analyze_circuit_def create_obstacle_map_def cv_plain_def router_init_def Let_def
  by (cases "py_truediv (count_cells (\<lambda>v. v \<noteq> 0) m)
               (count_cells (\<lambda>v. v \<noteq> 0) m + count_cells (\<lambda>v. v = 0) m)") simp_all

lemma grid_16x10_obstacles: "count_cells (\<lambda>v. v \<noteq> 0) grid_16x10 = 23"
  by code_simp

lemma grid_16x10_free: "count_cells (\<lambda>v. v = 0) grid_16x10 = 137"
  by code_simp

lemma ratio_23_160: "py_truediv 23 (23 + 137) = Some (to_double (23 / 160))"
  unfolding py_truediv_def by simp

lemma coverage_23_160: "py_round (py_fmul (to_double (23 / 160)) 100) 2 = to_double (1437 / 100)"
  by code_simp

lemma analyze_circuit_16x10:
  "analyze_circuit cv_plain (router_init True) (Gray grid_16x10) 1 0 =
     Some ((router_init True)
             \<lparr>obstacle_detector :=
                detector_init\<lparr>original_binary := Some grid_16x10, obstacle_map := Some grid_16x10\<rparr>,
              current_obstacle_map := Some grid_16x10\<rparr>,
           \<lparr>analysis_method = ''generic'', analysis_map = grid_16x10, obstacle_pixels = 23,
            free_pixels = 137, coverage = to_double (1437 / 100)\<rparr>)"
  unfolding analyze_circuit_cv_plain Let_def grid_16x10_obstacles grid_16x10_free ratio_23_160
  by (simp add: coverage_23_160)

lemma coverage_claimed_23_160:
  "py_round (to_double (100 * 23 / (23 + 137))) 2 = to_double (1438 / 100)"
  by code_simp

lemma coverage_exact_23_160:
  "of_int (round_half_even (100 * 23 / (23 + 137) * 10 ^ 2)) / 10 ^ 2 = (1438 / 100 :: rat)"
  by code_simp

lemma doubles_1437_1438: "to_double (1437 / 100) \<noteq> to_double (1438 / 100)"
  by code_simp

text \<open>
  Claim C8, as the code has it. When \<open>analyze_circuit\<close> returns, the two counts are those
  of the nonzero and of the zero cells of the map it returns, which is also the router's
  current map; they add up to the number of cells of that map, and to width times height
  of the image when OpenCV keeps the shape of its arguments. The coverage is the value of
  the expression of the source in double precision, evaluated in its order: the quotient
  of the counts rounded to a double, its product with 100 rounded to a double, and that
  rounded to two decimals. The total is positive: on a map of no cells the division
  raises.
\<close>

theorem analyze_circuit_counts:
  assumes "analyze_circuit cv r img dilation_size safety_padding = Some (r', a)"
  shows "obstacle_pixels a = count_cells (\<lambda>v. v \<noteq> 0) (analysis_map a) \<and>
         free_pixels a = count_cells (\<lambda>v. v = 0) (analysis_map a) \<and>
         current_obstacle_map r' = Some (analysis_map a) \<and>
         obstacle_pixels a + free_pixels a = int (height (analysis_map a) * width (analysis_map a)) \<and>
         (keeps_shape cv \<longrightarrow>
            obstacle_pixels a + free_pixels a = int (image_width img * image_height img)) \<and>
         0 < obstacle_pixels a + free_pixels a \<and>
         coverage a =
           py_round
             (py_fmul
                (to_double (of_int (obstacle_pixels a) / of_int (obstacle_pixels a + free_pixels a)))
                100) 2"
proof -
  from assms obtain d m ratio where
    built: "create_obstacle_map cv (obstacle_detector r) img dilation_size safety_padding = Some (d, m)" and
    ratio: "py_truediv (count_cells (\<lambda>v. v \<noteq> 0) m)
              (count_cells (\<lambda>v. v \<noteq> 0) m + count_cells (\<lambda>v. v = 0) m) = Some ratio" and
    r': "r' = r\<lparr>obstacle_detector := d, current_obstacle_map := Some m\<rparr>" and
    a: "a = \<lparr>analysis_method = ''generic'', analysis_map = m,
              obstacle_pixels = count_cells (\<lambda>v. v \<noteq> 0) m,
              free_pixels = count_cells (\<lambda>v. v = 0) m,
              coverage = py_round (py_fmul ratio 100) 2\<rparr>"
    by (rule analyze_circuit_Some)
  define obs where "obs = count_cells (\<lambda>v. v \<noteq> 0) m"
  define free where "free = count_cells (\<lambda>v. v = 0) m"
  have total: "obs + free = int (height m * width m)"
    unfolding obs_def free_def by (rule count_cells_total)
  from ratio have nz: "obs + free \<noteq> 0" and
    q: "ratio = to_double (of_int obs / of_int (obs + free))"
    unfolding py_truediv_def obs_def free_def by (auto split: if_splits)
  from total nz have pos: "0 < obs + free"
    by linarith
  have shape: "obs + free = int (image_width img * image_height img)" if "keeps_shape cv"
  proof -
    from that built have "height m = image_height img \<and> width m = image_width img"
      by (rule create_obstacle_map_shape)
    with total show ?thesis
      by (simp add: mult.commute)
  qed
  have 1: "obstacle_pixels a = obs" and 2: "free_pixels a = free" and
    3: "analysis_map a = m" and 4: "coverage a = py_round (py_fmul ratio 100) 2"
    unfolding a obs_def free_def by simp_all
  have 5: "current_obstacle_map r' = Some m"
    unfolding r' by simp
  show ?thesis
    unfolding 1 2 3 4 5 q
    using total pos shape unfolding obs_def free_def by blast
qed

text \<open>
  The theorem at a map of 16 columns and 10 rows with 23 obstacle cells: the counts are 23
  and 137, their sum is 160, the coverage is the double nearest to 14.37.
\<close>

theorem analyze_circuit_counts_witness:
  "keeps_shape cv_plain \<and>
   (\<exists>r' a. analyze_circuit cv_plain (router_init True) (Gray grid_16x10) 1 0 = Some (r', a) \<and>
      obstacle_pixels a = 23 \<and> free_pixels a = 137 \<and>
      obstacle_pixels a + free_pixels a = 160 \<and>
      int (image_width (Gray grid_16x10) * image_height (Gray grid_16x10)) = 160 \<and>
      current_obstacle_map r' = Some (analysis_map a) \<and>
      coverage a = py_round (py_fmul (to_double (23 / 160)) 100) 2 \<and>
      coverage a = to_double (1437 / 100))"
proof -
  define r' where
    "r' = (router_init True)
            \<lparr>obstacle_detector :=
               detector_init\<lparr>original_binary := Some grid_16x10, obstacle_map := Some grid_16x10\<rparr>,
             current_obstacle_map := Some grid_16x10\<rparr>"
  define a where
    "a = \<lparr>analysis_method = ''generic'', analysis_map = grid_16x10, obstacle_pixels = 23,
          free_pixels = 137, coverage = to_double (1437 / 100)\<rparr>"
  have run: "analyze_circuit cv_plain (router_init True) (Gray grid_16x10) 1 0 = Some (r', a)"
    unfolding r'_def a_def by (rule analyze_circuit_16x10)
  have vals: "obstacle_pixels a = 23" "free_pixels a = 137" "coverage a = to_double (1437 / 100)"
    unfolding a_def by simp_all
  have size: "int (image_width (Gray grid_16x10) * image_height (Gray grid_16x10)) = 160"
    unfolding image_width_def image_height_def grid_16x10_def by simp
  from analyze_circuit_counts [OF run] keeps_shape_cv_plain
  have "current_obstacle_map r' = Some (analysis_map a)"
    and "obstacle_pixels a + free_pixels a = int (image_width (Gray grid_16x10) * image_height (Gray grid_16x10))"
    and "coverage a =
           py_round
             (py_fmul
                (to_double (of_int (obstacle_pixels a) / of_int (obstacle_pixels a + free_pixels a)))
                100) 2"
    by blast+
  then have "current_obstacle_map r' = Some (analysis_map a)"
    and "obstacle_pixels a + free_pixels a = 160"
    and "coverage a = py_round (py_fmul (to_double (23 / 160)) 100) 2"
    unfolding size unfolding vals(1,2) by simp_all
  with run vals size keeps_shape_cv_plain show ?thesis
    by blast
qed

text \<open>
  Claim C8 as stated fails on its coverage equation. On the same map the counts are 23 and
  137 and the code returns the double nearest to 14.37: the quotient 23 / 160 rounds to a
  double below 0.14375, so that the product with 100 lies below 14.375. The formula of the
  claim, \<open>round(100 * 23 / (23 + 137), 2)\<close>, is 14.38, in exact arithmetic and in double
  precision alike, and the two doubles differ.
\<close>

theorem analyze_circuit_coverage_differs:
  "map_option (obstacle_pixels \<circ> snd)
     (analyze_circuit cv_plain (router_init True) (Gray grid_16x10) 1 0) = Some 23 \<and>
   map_option (free_pixels \<circ> snd)
     (analyze_circuit cv_plain (router_init True) (Gray grid_16x10) 1 0) = Some 137 \<and>
   map_option (coverage \<circ> snd)
     (analyze_circuit cv_plain (router_init True) (Gray grid_16x10) 1 0) =
     Some (to_double (1437 / 100)) \<and>
   py_round (to_double (100 * 23 / (23 + 137))) 2 = to_double (1438 / 100) \<and>
   of_int (round_half_even (100 * 23 / (23 + 137) * 10 ^ 2)) / 10 ^ 2 = (1438 / 100 :: rat) \<and>
   to_double (1437 / 100) \<noteq> to_double (1438 / 100)"
  unfolding analyze_circuit_16x10
  using coverage_claimed_23_160 coverage_exact_23_160 doubles_1437_1438
  by simp


end
